theory Spec2Isabelle
  imports Complex_Main "HOL-Library.Log_Nat" "HOL-Library.Sublist"
begin

section \<open>Python strings\<close>

text \<open>
  A Python \<open>str\<close> is a sequence of Unicode code points. Header texts and cell texts are
  modelled as lists of code points; \<open>codes\<close> writes such a text from a literal.
\<close>

type_synonym str = "nat list"

definition codes :: "string \<Rightarrow> str" where
  "codes s = map of_char s"

text \<open>
  \<open>str.strip()\<close> and \<open>str.title()\<close> consult the Unicode character database: which code
  points are whitespace, which are cased, which are case-ignorable, and the full
  title-case and lower-case mappings, which can yield several code points. The database
  is a parameter of the model.
\<close>

record unicode_data =
  whitespace :: "nat \<Rightarrow> bool"
  cased :: "nat \<Rightarrow> bool"
  case_ignorable :: "nat \<Rightarrow> bool"
  title_full :: "nat \<Rightarrow> str"
  lower_full :: "nat \<Rightarrow> str"

definition lstrip :: "unicode_data \<Rightarrow> str \<Rightarrow> str" where
  "lstrip ud s = dropWhile (whitespace ud) s"

definition rstrip :: "unicode_data \<Rightarrow> str \<Rightarrow> str" where
  "rstrip ud s = rev (dropWhile (whitespace ud) (rev s))"

definition strip :: "unicode_data \<Rightarrow> str \<Rightarrow> str" where
  \<comment> \<open>\<open>str.strip()\<close> without argument\<close>
  "strip ud s = rstrip ud (lstrip ud s)"

text \<open>
  Lowercasing inside \<open>str.title()\<close>: the capital sigma U+03A3 becomes the final sigma
  U+03C2 when a cased code point comes before it, case-ignorable ones skipped, and none
  comes after it in the same way; otherwise U+03C3. Every other code point takes its full
  lower-case mapping.
\<close>

definition final_sigma :: "unicode_data \<Rightarrow> str \<Rightarrow> nat \<Rightarrow> bool" where
  "final_sigma ud s i =
     (case dropWhile (case_ignorable ud) (rev (take i s)) of
        [] \<Rightarrow> False
      | c # before \<Rightarrow>
          cased ud c \<and>
          (case dropWhile (case_ignorable ud) (drop (Suc i) s) of
             [] \<Rightarrow> True
           | d # after \<Rightarrow> \<not> cased ud d))"

definition lower_ucs4 :: "unicode_data \<Rightarrow> str \<Rightarrow> nat \<Rightarrow> str" where
  "lower_ucs4 ud s i =
     (if s ! i = 0x3A3 then [if final_sigma ud s i then 0x3C2 else 0x3C3]
      else lower_full ud (s ! i))"

text \<open>
  \<open>str.title()\<close> walks the string with one flag, whether the previous code point is
  cased: a code point after a cased one is lowercased, any other takes its title-case
  mapping. The loop runs over the code points \<open>cs\<close> that remain from position \<open>i\<close> of
  \<open>s\<close>.
\<close>

fun do_title :: "unicode_data \<Rightarrow> str \<Rightarrow> nat \<Rightarrow> bool \<Rightarrow> str \<Rightarrow> str" where
  "do_title ud s i previous_is_cased [] = []"
| "do_title ud s i previous_is_cased (c # cs) =
     (if previous_is_cased then lower_ucs4 ud s i else title_full ud c)
       @ do_title ud s (Suc i) (cased ud c) cs"

definition title :: "unicode_data \<Rightarrow> str \<Rightarrow> str" where
  "title ud s = do_title ud s 0 False s"

text \<open>
  \<open>str.replace(old, new)\<close> replaces every occurrence of \<open>old\<close>, found from the left
  and without overlap. With an empty \<open>old\<close>, Python puts \<open>new\<close> before every character
  and at the end. It compares code points only, so the same definition serves paths,
  written as \<open>string\<close>.
\<close>

definition startswith :: "'a list \<Rightarrow> 'a list \<Rightarrow> bool" where
  "startswith s p = (take (length p) s = p)"

function replace_nonempty :: "'a list \<Rightarrow> 'a list \<Rightarrow> 'a list \<Rightarrow> 'a list" where
  "replace_nonempty old new [] = []"
| "replace_nonempty old new (c # cs) =
     (if old \<noteq> [] \<and> startswith (c # cs) old
      then new @ replace_nonempty old new (drop (length old) (c # cs))
      else c # replace_nonempty old new cs)"
  by pat_completeness auto
termination
  by (relation "measure (\<lambda>(old, new, s). length s)") auto

definition replace :: "'a list \<Rightarrow> 'a list \<Rightarrow> 'a list \<Rightarrow> 'a list" where
  "replace s old new =
     (if old = [] then concat (map (\<lambda>c. new @ [c]) s) @ new
      else replace_nonempty old new s)"

definition normalize_name :: "unicode_data \<Rightarrow> str \<Rightarrow> str" where
  \<comment> \<open>\<open>str(col).strip().title().replace('_', ' ')\<close>, for a header that is a string\<close>
  "normalize_name ud col = replace (title ud (strip ud col)) (codes ''_'') (codes '' '')"

definition us :: "nat \<Rightarrow> nat" where
  \<comment> \<open>what \<open>replace('_', ' ')\<close> does to one code point\<close>
  "us c = (if c = 95 then 32 else c)"

definition edge_underscore :: "str \<Rightarrow> bool" where
  \<comment> \<open>the text begins or ends with an underscore\<close>
  "edge_underscore t = (t \<noteq> [] \<and> (hd t = 95 \<or> last t = 95))"

definition no_outer_space :: "unicode_data \<Rightarrow> str \<Rightarrow> bool" where
  \<comment> \<open>no leading and no trailing whitespace\<close>
  "no_outer_space ud t = (t = [] \<or> (\<not> whitespace ud (hd t) \<and> \<not> whitespace ud (last t)))"

subsection \<open>The database on ASCII\<close>

text \<open>
  On the code points below 128 the database is small enough to write out: the whitespace
  is TAB, LF, VT, FF, CR, FS, GS, RS, US and the blank; the cased code points are the
  letters; the title-case mapping of a small letter is its capital, the lower-case
  mapping of a capital its small letter. \<open>agrees_on_ascii\<close> says that a database has
  these entries, as Unicode's has; \<open>ascii_data\<close> has them and, above 127, leaves every
  code point as it is, which is not Unicode's data: it serves for ASCII texts only.
\<close>

definition ascii_space :: "nat \<Rightarrow> bool" where
  "ascii_space c = ((9 \<le> c \<and> c \<le> 13) \<or> (28 \<le> c \<and> c \<le> 32))"

definition is_upper :: "nat \<Rightarrow> bool" where
  "is_upper c = (65 \<le> c \<and> c \<le> 90)"

definition is_lower :: "nat \<Rightarrow> bool" where
  "is_lower c = (97 \<le> c \<and> c \<le> 122)"

definition is_letter :: "nat \<Rightarrow> bool" where
  "is_letter c = (is_upper c \<or> is_lower c)"

definition to_upper :: "nat \<Rightarrow> nat" where
  "to_upper c = (if is_lower c then c - 32 else c)"

definition to_lower :: "nat \<Rightarrow> nat" where
  "to_lower c = (if is_upper c then c + 32 else c)"

definition ascii_data :: unicode_data where
  "ascii_data =
     \<lparr>whitespace = ascii_space,
      cased = is_letter,
      case_ignorable = (\<lambda>c. c \<in> set (codes ''.:^`'') \<or> c = 39),
      title_full = (\<lambda>c. [to_upper c]),
      lower_full = (\<lambda>c. [to_lower c])\<rparr>"

definition agrees_on_ascii :: "unicode_data \<Rightarrow> bool" where
  "agrees_on_ascii ud =
     (\<forall>c < 128. whitespace ud c = ascii_space c \<and> cased ud c = is_letter c
        \<and> title_full ud c = [to_upper c] \<and> lower_full ud c = [to_lower c])"

definition ascii :: "str \<Rightarrow> bool" where
  "ascii s = list_all (\<lambda>c. c < 128) s"

text \<open>
  What \<open>str.title()\<close> comes to on ASCII text, where every mapping yields one code point
  and no sigma occurs (\<open>title_ascii\<close> below).
\<close>

fun ascii_title_from :: "bool \<Rightarrow> str \<Rightarrow> str" where
  "ascii_title_from previous_is_cased [] = []"
| "ascii_title_from previous_is_cased (c # cs) =
     (if previous_is_cased then to_lower c else to_upper c) # ascii_title_from (is_letter c) cs"

text \<open>
  The entries of the capital I with dot above, U+0130, and of the combining dot above,
  U+0307, added to \<open>ascii_data\<close>: the former is cased and lowercases to \<open>i\<close> followed by
  the latter, which is case-ignorable and not cased.
\<close>

definition dotted_data :: unicode_data where
  "dotted_data =
     ascii_data
       \<lparr>cased := (\<lambda>c. c = 0x130 \<or> is_letter c),
        case_ignorable := (\<lambda>c. c = 0x307 \<or> case_ignorable ascii_data c),
        lower_full := (\<lambda>c. if c = 0x130 then [0x69, 0x307] else [to_lower c])\<rparr>"

subsection \<open>Title case as the specification words it\<close>

text \<open>
  The specification describes title case over whitespace-delimited words: the first
  letter of each such word capitalized, the rest lowercased. This second definition
  follows those words, for comparison with \<open>title\<close> above, which follows Python.
\<close>

fun title_spec_from :: "unicode_data \<Rightarrow> bool \<Rightarrow> str \<Rightarrow> str" where
  "title_spec_from ud at_word_start [] = []"
| "title_spec_from ud at_word_start (c # cs) =
     (if at_word_start then title_full ud c else lower_full ud c)
       @ title_spec_from ud (whitespace ud c) cs"

definition title_spec :: "unicode_data \<Rightarrow> str \<Rightarrow> str" where
  "title_spec ud s = title_spec_from ud True s"

definition normalize_name_spec :: "unicode_data \<Rightarrow> str \<Rightarrow> str" where
  "normalize_name_spec ud col = replace (title_spec ud (strip ud col)) (codes ''_'') (codes '' '')"

section \<open>Floating-point percent\<close>

text \<open>
  \<open>int((i + 1) / total_ops * 100)\<close> is computed in binary64: \<open>/\<close> on two ints is the
  correctly rounded quotient, \<open>*\<close> the correctly rounded product (round to nearest,
  ties to even), and \<open>int\<close> truncates toward zero. A finite double is a rational number;
  \<open>round_double\<close> rounds a rational to the nearest double with a 53-bit significand. The
  values met here lie between 1/6 and 100, far from the subnormal and overflow ranges,
  which are therefore not modelled.
\<close>

definition round_half_even :: "rat \<Rightarrow> int" where
  "round_half_even q =
     (let f = \<lfloor>q\<rfloor>; d = q - of_int f
      in if d < 1 / 2 then f else if 1 / 2 < d then f + 1 else if even f then f else f + 1)"

definition binary_exponent :: "rat \<Rightarrow> int" where
  \<comment> \<open>for \<open>q > 0\<close>, the \<open>e\<close> with \<open>2 ^ e \<le> q < 2 ^ (e + 1)\<close>\<close>
  "binary_exponent q =
     (let (a, b) = quotient_of q; k = bitlen a - bitlen b
      in if 2 powi k \<le> q then k else k - 1)"

definition round_double :: "rat \<Rightarrow> rat" where
  "round_double q =
     (if q = 0 then 0
      else let e = binary_exponent \<bar>q\<bar>;
               m = round_half_even (\<bar>q\<bar> * 2 powi (52 - e))
           in sgn q * of_int m * 2 powi (e - 52))"

definition float_div :: "rat \<Rightarrow> rat \<Rightarrow> rat" where
  "float_div a b = round_double (a / b)"

definition float_mul :: "rat \<Rightarrow> rat \<Rightarrow> rat" where
  "float_mul a b = round_double (a * b)"

definition py_int :: "rat \<Rightarrow> int" where
  \<comment> \<open>\<open>int(x)\<close> of a float truncates toward zero\<close>
  "py_int q = (if 0 \<le> q then \<lfloor>q\<rfloor> else \<lceil>q\<rceil>)"

section \<open>Errors\<close>

text \<open>
  The exceptions a run can raise. \<open>External\<close> carries whatever the file system, the
  spreadsheet reader and writer, or the progress callback raise; the others are raised at
  places the model follows step by step.
\<close>

datatype 'x py_error =
    ZeroDivisionError
  | SameFileError
  | FileNotFoundError
  | AttributeError
  | ValueError
  | External 'x

definition percent_value :: "nat \<Rightarrow> nat \<Rightarrow> int" where
  "percent_value k total_ops = py_int (float_mul (float_div (of_nat k) (of_nat total_ops)) 100)"

definition percent :: "nat \<Rightarrow> nat \<Rightarrow> 'x py_error + int" where
  \<comment> \<open>\<open>int((i + 1) / total_ops * 100)\<close>, with \<open>k = i + 1\<close>; dividing by zero raises\<close>
  "percent k total_ops =
     (if total_ops = 0 then Inl ZeroDivisionError else Inr (percent_value k total_ops))"

section \<open>Data frames\<close>

text \<open>
  A pandas \<open>DataFrame\<close> as the cleaner uses it: row labels (the index) and an ordered
  list of columns, each with its header, its storage type and one value per row. A cell is
  a text, a number or the null marker \<open>NaN\<close>, which is what the spreadsheet reader
  produces for an empty cell. The library operations below follow the documented
  behaviour of pandas 1.x and 2.x, where a text column has storage type \<open>object\<close>.
\<close>

datatype 'n cell = Null | Num 'n | Text str

datatype dtype = Object | Int64 | Float64

record 'n column =
  label :: str
  dtype :: dtype
  vals :: "'n cell list"

record 'n dataframe =
  index :: "nat list"
  columns :: "'n column list"

definition wf_frame :: "'n dataframe \<Rightarrow> bool" where
  \<comment> \<open>every column has one value per row label\<close>
  "wf_frame df = list_all (\<lambda>c. length (vals c) = length (index df)) (columns df)"

definition tabular :: "'n dataframe \<Rightarrow> bool" where
  \<comment> \<open>a Tabular Dataset of the specification: named columns of one shared length, so
     that rows exist only through the columns. A frame such as \<open>pd.DataFrame(index=[0, 1])\<close>,
     with row labels and no column, is not one.\<close>
  "tabular df = (wf_frame df \<and> (columns df = [] \<longrightarrow> index df = []))"

definition labels :: "'n dataframe \<Rightarrow> str list" where
  "labels df = map label (columns df)"

definition row :: "'n dataframe \<Rightarrow> nat \<Rightarrow> 'n cell list" where
  "row df i = map (\<lambda>c. vals c ! i) (columns df)"

definition rows :: "'n dataframe \<Rightarrow> 'n cell list list" where
  "rows df = map (row df) [0..<length (index df)]"

definition select :: "bool list \<Rightarrow> 'a list \<Rightarrow> 'a list" where
  \<comment> \<open>boolean-mask indexing: the entries whose mask bit is set\<close>
  "select keep xs = map snd (filter fst (zip keep xs))"

definition select_rows :: "bool list \<Rightarrow> 'n dataframe \<Rightarrow> 'n dataframe" where
  "select_rows keep df =
     df\<lparr>index := select keep (index df),
        columns := map (\<lambda>c. c\<lparr>vals := select keep (vals c)\<rparr>) (columns df)\<rparr>"

definition frame_empty :: "'n dataframe \<Rightarrow> bool" where
  \<comment> \<open>\<open>DataFrame.empty\<close>: some axis has length 0\<close>
  "frame_empty df = (index df = [] \<or> columns df = [])"

fun duplicated_from :: "'a list \<Rightarrow> 'a list \<Rightarrow> bool list" where
  \<comment> \<open>\<open>duplicated(keep='first')\<close>: a row is marked when an equal row came before it\<close>
  "duplicated_from seen [] = []"
| "duplicated_from seen (r # rs) = (r \<in> set seen) # duplicated_from (r # seen) rs"

definition drop_duplicates :: "'n dataframe \<Rightarrow> 'n dataframe" where
  \<comment> \<open>\<open>DataFrame.drop_duplicates()\<close>; pandas returns an empty frame as it is.
     Two null cells compare equal.\<close>
  "drop_duplicates df =
     (if frame_empty df then df
      else select_rows (map Not (duplicated_from [] (rows df))) df)"

definition isna :: "'n cell \<Rightarrow> bool" where
  "isna v = (case v of Null \<Rightarrow> True | _ \<Rightarrow> False)"

definition dropna_rows :: "'n dataframe \<Rightarrow> 'n dataframe" where
  \<comment> \<open>\<open>dropna(how="all")\<close>: keep the rows that have some cell that is not null\<close>
  "dropna_rows df = select_rows (map (\<lambda>r. list_ex (\<lambda>v. \<not> isna v) r) (rows df)) df"

definition dropna_columns :: "'n dataframe \<Rightarrow> 'n dataframe" where
  \<comment> \<open>\<open>dropna(axis=1, how="all")\<close>\<close>
  "dropna_columns df =
     df\<lparr>columns := filter (\<lambda>c. list_ex (\<lambda>v. \<not> isna v) (vals c)) (columns df)\<rparr>"

definition astype_str :: "('n \<Rightarrow> str) \<Rightarrow> 'n cell \<Rightarrow> str" where
  \<comment> \<open>\<open>astype(str)\<close> on one value: \<open>str(float('nan'))\<close> is \<open>'nan'\<close>; \<open>num_str\<close> is
     Python's \<open>str\<close> on numbers\<close>
  "astype_str num_str v =
     (case v of Null \<Rightarrow> codes ''nan'' | Num n \<Rightarrow> num_str n | Text s \<Rightarrow> s)"

definition getitem :: "'n dataframe \<Rightarrow> str \<Rightarrow> 'n column list" where
  \<comment> \<open>\<open>df[col]\<close>: the columns under that header, one (a Series) when headers are unique\<close>
  "getitem df col = filter (\<lambda>c. label c = col) (columns df)"

definition setitem :: "'n dataframe \<Rightarrow> str \<Rightarrow> 'n cell list \<Rightarrow> 'n dataframe" where
  \<comment> \<open>\<open>df[col] = series\<close> for an existing header; the new values are strings, stored as
     \<open>object\<close>\<close>
  "setitem df col vs =
     df\<lparr>columns := map (\<lambda>c. if label c = col then c\<lparr>dtype := Object, vals := vs\<rparr> else c)
                       (columns df)\<rparr>"

text \<open>
  The loop shared by \<open>trim_spaces\<close> and \<open>title_case_cells\<close>: for each header,
  \<open>df[col].dtype == 'object'\<close> decides whether the column is rewritten with \<open>f\<close> applied
  to the string form of every value. Under a header carried by several columns,
  \<open>df[col]\<close> is a frame, which has no \<open>dtype\<close>: attribute access raises, or, when the
  header itself is \<open>dtype\<close>, yields a frame whose truth value raises.
\<close>

fun text_columns_loop ::
  "(str \<Rightarrow> str) \<Rightarrow> ('n \<Rightarrow> str) \<Rightarrow> str list \<Rightarrow> 'n dataframe
     \<Rightarrow> 'x py_error + 'n dataframe" where
  "text_columns_loop f num_str [] df = Inr df"
| "text_columns_loop f num_str (col # cols) df =
     (case getitem df col of
        [c] \<Rightarrow>
          if dtype c = Object
          then text_columns_loop f num_str cols
                 (setitem df col (map (\<lambda>v. Text (f (astype_str num_str v))) (vals c)))
          else text_columns_loop f num_str cols df
      | _ \<Rightarrow> if col = codes ''dtype'' then Inl ValueError else Inl AttributeError)"

section \<open>The world of a run\<close>

text \<open>
  What a run reads and changes: the files, by path; the state of the progress callback's
  owner; and the sequence of observable events, in the order they happen: records written
  through the logger and invocations of the progress callback.
\<close>

datatype message =
    Removed_duplicate_rows int
  | Removed_empty_rows int
  | Removed_empty_columns int
  | Trimmed_spaces
  | Normalized_column_names nat
  | Converted_to_title_case
  | Loading_file string
  | Successfully_cleaned string

datatype 'x event = Info message | Error_cleaning_file "'x py_error" | Progress int

record ('b, 'x, 'h) world =
  files :: "string \<rightharpoonup> 'b"
  events :: "'x event list"
  ui :: 'h

definition logger_info :: "message \<Rightarrow> ('b, 'x, 'h) world \<Rightarrow> ('b, 'x, 'h) world" where
  "logger_info m w = w\<lparr>events := events w @ [Info m]\<rparr>"

definition logger_error :: "'x py_error \<Rightarrow> ('b, 'x, 'h) world \<Rightarrow> ('b, 'x, 'h) world" where
  "logger_error e w = w\<lparr>events := events w @ [Error_cleaning_file e]\<rparr>"

text \<open>
  The surroundings of a run: the two readings of the clock, already formatted by
  \<open>strftime("%Y%m%d_%H%M%S")\<close>; the input and output failures of the file system, by
  path; the spreadsheet reader and writer; Python's \<open>str\<close> on numbers; and the Unicode
  character database of the interpreter.
\<close>

record ('b, 'x, 'n) env =
  timestamp_backup :: string
  timestamp_cleaned :: string
  read_fault :: "string \<Rightarrow> 'x option"
  write_fault :: "string \<Rightarrow> 'x option"
  parse_excel :: "'b \<Rightarrow> 'x + 'n dataframe"
  render_excel :: "'n column list \<Rightarrow> 'x + 'b"
  num_str :: "'n \<Rightarrow> str"
  unicode :: unicode_data

type_synonym ('x, 'h) hook = "int \<Rightarrow> 'h \<Rightarrow> 'x option \<times> 'h"

definition copy2 ::
  "('b, 'x, 'n) env \<Rightarrow> string \<Rightarrow> string \<Rightarrow> ('b, 'x, 'h) world
     \<Rightarrow> 'x py_error + ('b, 'x, 'h) world" where
  \<comment> \<open>\<open>shutil.copy2(src, dst)\<close>: a missing source and a destination that is the source
     itself raise; otherwise the content is copied unless reading or writing fails\<close>
  "copy2 ev src dst w =
     (case files w src of
        None \<Rightarrow> Inl FileNotFoundError
      | Some b \<Rightarrow>
          if src = dst then Inl SameFileError
          else case read_fault ev src of
                 Some x \<Rightarrow> Inl (External x)
               | None \<Rightarrow>
                   (case write_fault ev dst of
                      Some x \<Rightarrow> Inl (External x)
                    | None \<Rightarrow> Inr (w\<lparr>files := (files w)(dst \<mapsto> b)\<rparr>)))"

definition read_excel ::
  "('b, 'x, 'n) env \<Rightarrow> string \<Rightarrow> ('b, 'x, 'h) world \<Rightarrow> 'x py_error + 'n dataframe" where
  \<comment> \<open>\<open>pd.read_excel(path)\<close>\<close>
  "read_excel ev path w =
     (case files w path of
        None \<Rightarrow> Inl FileNotFoundError
      | Some b \<Rightarrow>
          (case read_fault ev path of
             Some x \<Rightarrow> Inl (External x)
           | None \<Rightarrow> (case parse_excel ev b of Inl x \<Rightarrow> Inl (External x) | Inr df \<Rightarrow> Inr df)))"

definition to_excel ::
  "('b, 'x, 'n) env \<Rightarrow> 'n dataframe \<Rightarrow> string \<Rightarrow> ('b, 'x, 'h) world
     \<Rightarrow> 'x py_error + ('b, 'x, 'h) world" where
  \<comment> \<open>\<open>df.to_excel(path, index=False)\<close>: the columns are written, the row labels are not\<close>
  "to_excel ev df path w =
     (case render_excel ev (columns df) of
        Inl x \<Rightarrow> Inl (External x)
      | Inr b \<Rightarrow>
          (case write_fault ev path of
             Some x \<Rightarrow> Inl (External x)
           | None \<Rightarrow> Inr (w\<lparr>files := (files w)(path \<mapsto> b)\<rparr>)))"

section \<open>The cleaner\<close>

record CleaningConfig =
  opt_remove_duplicates :: bool
  opt_remove_empty_rows :: bool
  opt_remove_empty_columns :: bool
  opt_trim_spaces :: bool
  opt_normalize_column_names :: bool
  opt_title_case_cells :: bool

type_synonym ('b, 'x, 'h, 'n) transformation =
  "'n dataframe \<Rightarrow> ('b, 'x, 'h) world \<Rightarrow> ('x py_error + 'n dataframe) \<times> ('b, 'x, 'h) world"

definition remove_duplicates :: "('b, 'x, 'h, 'n) transformation" where
  "remove_duplicates df w =
     (let initial_count = int (length (index df));
          df_cleaned = drop_duplicates df;
          removed_count = initial_count - int (length (index df_cleaned))
      in (Inr df_cleaned, logger_info (Removed_duplicate_rows removed_count) w))"

definition remove_empty_rows :: "('b, 'x, 'h, 'n) transformation" where
  "remove_empty_rows df w =
     (let initial_count = int (length (index df));
          df_cleaned = dropna_rows df;
          removed_count = initial_count - int (length (index df_cleaned))
      in (Inr df_cleaned, logger_info (Removed_empty_rows removed_count) w))"

definition remove_empty_columns :: "('b, 'x, 'h, 'n) transformation" where
  "remove_empty_columns df w =
     (let initial_cols = int (length (columns df));
          df_cleaned = dropna_columns df;
          removed_count = initial_cols - int (length (columns df_cleaned))
      in (Inr df_cleaned, logger_info (Removed_empty_columns removed_count) w))"

definition trim_spaces ::
  "unicode_data \<Rightarrow> ('n \<Rightarrow> str) \<Rightarrow> ('b, 'x, 'h, 'n) transformation" where
  "trim_spaces ud nstr df w =
     (case text_columns_loop (strip ud) nstr (labels df) df of
        Inl e \<Rightarrow> (Inl e, w)
      | Inr df_cleaned \<Rightarrow> (Inr df_cleaned, logger_info Trimmed_spaces w))"

definition normalize_column_names :: "unicode_data \<Rightarrow> ('b, 'x, 'h, 'n) transformation" where
  "normalize_column_names ud df w =
     (let old_columns = labels df;
          df_cleaned =
            df\<lparr>columns := map (\<lambda>c. c\<lparr>label := normalize_name ud (label c)\<rparr>) (columns df)\<rparr>
      in (Inr df_cleaned, logger_info (Normalized_column_names (length old_columns)) w))"

definition title_case_cells ::
  "unicode_data \<Rightarrow> ('n \<Rightarrow> str) \<Rightarrow> ('b, 'x, 'h, 'n) transformation" where
  "title_case_cells ud nstr df w =
     (case text_columns_loop (title ud) nstr (labels df) df of
        Inl e \<Rightarrow> (Inl e, w)
      | Inr df_cleaned \<Rightarrow> (Inr df_cleaned, logger_info Converted_to_title_case w))"

definition backup_filename :: "string \<Rightarrow> string \<Rightarrow> string" where
  \<comment> \<open>\<open>file_path.replace(".xlsx", f"_backup_{timestamp}.xlsx")\<close>\<close>
  "backup_filename timestamp file_path =
     replace file_path ''.xlsx'' (''_backup_'' @ timestamp @ ''.xlsx'')"

definition create_backup ::
  "('b, 'x, 'n) env \<Rightarrow> string \<Rightarrow> ('b, 'x, 'h) world
     \<Rightarrow> 'x py_error + string \<times> ('b, 'x, 'h) world" where
  "create_backup ev file_path w =
     (let timestamp = timestamp_backup ev;
          backup_path = backup_filename timestamp file_path
      in case copy2 ev file_path backup_path w of
           Inl e \<Rightarrow> Inl e
         | Inr w' \<Rightarrow> Inr (backup_path, w'))"

definition get_cleaned_filename :: "('b, 'x, 'n) env \<Rightarrow> string \<Rightarrow> string" where
  "get_cleaned_filename ev file_path =
     (let timestamp = timestamp_cleaned ev
      in replace file_path ''.xlsx'' (''_cleaned_'' @ timestamp @ ''.xlsx''))"

record frame_stats =
  stat_rows :: nat
  stat_columns :: nat
  stat_cells :: nat
  stat_empty_cells :: nat
  stat_data_types :: "dtype \<rightharpoonup> nat"

definition get_dataframe_stats :: "'n dataframe \<Rightarrow> frame_stats" where
  "get_dataframe_stats df =
     \<lparr>stat_rows = length (index df),
      stat_columns = length (columns df),
      stat_cells = length (index df) * length (columns df),
      stat_empty_cells = sum_list (map (\<lambda>c. length (filter isna (vals c))) (columns df)),
      stat_data_types =
        (\<lambda>d. let n = length (filter (\<lambda>c. dtype c = d) (columns df))
             in if n = 0 then None else Some n)\<rparr>"

record statistics =
  original :: frame_stats
  final :: frame_stats
  operations_applied :: "string list"

definition operations ::
  "('b, 'x, 'n) env \<Rightarrow> CleaningConfig \<Rightarrow> (string \<times> ('b, 'x, 'h, 'n) transformation \<times> bool) list" where
  "operations ev config =
     [(''remove_duplicates'', remove_duplicates, opt_remove_duplicates config),
      (''remove_empty_rows'', remove_empty_rows, opt_remove_empty_rows config),
      (''remove_empty_columns'', remove_empty_columns, opt_remove_empty_columns config),
      (''trim_spaces'', trim_spaces (unicode ev) (num_str ev), opt_trim_spaces config),
      (''normalize_column_names'', normalize_column_names (unicode ev),
       opt_normalize_column_names config),
      (''title_case_cells'', title_case_cells (unicode ev) (num_str ev),
       opt_title_case_cells config)]"

definition call_hook ::
  "('x, 'h) hook \<Rightarrow> int \<Rightarrow> ('b, 'x, 'h) world \<Rightarrow> 'x option \<times> ('b, 'x, 'h) world" where
  \<comment> \<open>\<open>progress_callback(p)\<close>: the call is an event; the callback may raise\<close>
  "call_hook h p w =
     (case h p (ui w) of (r, u) \<Rightarrow> (r, w\<lparr>events := events w @ [Progress p], ui := u\<rparr>))"

text \<open>
  The loop \<open>for i, (name, func, enabled) in enumerate(enabled_operations)\<close>, over the
  pairs that \<open>enumerate\<close> yields. \<open>if progress_callback:\<close> tests the truth value of
  the argument: \<open>None\<close> stands for no callback and for an object whose truth value is
  false, \<open>Some h\<close> for a callback that counts as true, as every function does.
\<close>

definition enumerate_list :: "'a list \<Rightarrow> (nat \<times> 'a) list" where
  "enumerate_list xs = zip [0..<length xs] xs"

fun run_operations ::
  "('x, 'h) hook option \<Rightarrow> nat \<Rightarrow> (nat \<times> string \<times> ('b, 'x, 'h, 'n) transformation \<times> bool) list
     \<Rightarrow> ('b, 'x, 'h, 'n) transformation" where
  "run_operations progress_callback total_ops [] df w = (Inr df, w)"
| "run_operations progress_callback total_ops ((i, name, func, enabled) # rest) df w =
     (if enabled then
        case func df w of
          (Inl e, w1) \<Rightarrow> (Inl e, w1)
        | (Inr df1, w1) \<Rightarrow>
            (case progress_callback of
               None \<Rightarrow> run_operations progress_callback total_ops rest df1 w1
             | Some h \<Rightarrow>
                 (case percent (i + 1) total_ops of
                    Inl e \<Rightarrow> (Inl e, w1)
                  | Inr p \<Rightarrow>
                      (case call_hook h p w1 of
                         (Some x, w2) \<Rightarrow> (Inl (External x), w2)
                       | (None, w2) \<Rightarrow> run_operations progress_callback total_ops rest df1 w2)))
      else run_operations progress_callback total_ops rest df w)"

definition try_block ::
  "('b, 'x, 'n) env \<Rightarrow> string \<Rightarrow> CleaningConfig \<Rightarrow> ('x, 'h) hook option \<Rightarrow> ('b, 'x, 'h) world
     \<Rightarrow> ('x py_error + string \<times> string \<times> statistics) \<times> ('b, 'x, 'h) world" where
  \<comment> \<open>the body of the \<open>try\<close> statement of \<open>clean_excel_file\<close>\<close>
  "try_block ev file_path config progress_callback w =
     (case create_backup ev file_path w of
        Inl e \<Rightarrow> (Inl e, w)
      | Inr (backup_path, w1) \<Rightarrow>
          let w2 = logger_info (Loading_file file_path) w1 in
          case read_excel ev file_path w2 of
            Inl e \<Rightarrow> (Inl e, w2)
          | Inr df \<Rightarrow>
              let original_stats = get_dataframe_stats df;
                  enabled_operations = filter (\<lambda>op. snd (snd op)) (operations ev config);
                  total_ops = length enabled_operations
              in case run_operations progress_callback total_ops
                        (enumerate_list enabled_operations) df w2 of
                   (Inl e, w3) \<Rightarrow> (Inl e, w3)
                 | (Inr df', w3) \<Rightarrow>
                     let cleaned_path = get_cleaned_filename ev file_path in
                     case to_excel ev df' cleaned_path w3 of
                       Inl e \<Rightarrow> (Inl e, w3)
                     | Inr w4 \<Rightarrow>
                         let final_stats = get_dataframe_stats df';
                             stats = \<lparr>original = original_stats, final = final_stats,
                                      operations_applied = map fst enabled_operations\<rparr>
                         in (Inr (backup_path, cleaned_path, stats),
                             logger_info (Successfully_cleaned cleaned_path) w4))"

definition clean_excel_file ::
  "('b, 'x, 'n) env \<Rightarrow> string \<Rightarrow> CleaningConfig \<Rightarrow> ('x, 'h) hook option \<Rightarrow> ('b, 'x, 'h) world
     \<Rightarrow> ('x py_error + string \<times> string \<times> statistics) \<times> ('b, 'x, 'h) world" where
  \<comment> \<open>\<open>except Exception as e\<close>: the error is logged and raised again\<close>
  "clean_excel_file ev file_path config progress_callback w =
     (case try_block ev file_path config progress_callback w of
        (Inl e, w') \<Rightarrow> (Inl e, logger_error e w')
      | (Inr r, w') \<Rightarrow> (Inr r, w'))"

section \<open>Reading a run\<close>

text \<open>
  The names of the enabled operations, in the order of the list in \<open>clean_excel_file\<close>.
\<close>

definition enabled_names :: "CleaningConfig \<Rightarrow> string list" where
  "enabled_names config =
     map fst (filter snd
       [(''remove_duplicates'', opt_remove_duplicates config),
        (''remove_empty_rows'', opt_remove_empty_rows config),
        (''remove_empty_columns'', opt_remove_empty_columns config),
        (''trim_spaces'', opt_trim_spaces config),
        (''normalize_column_names'', opt_normalize_column_names config),
        (''title_case_cells'', opt_title_case_cells config)])"

text \<open>
  Each transformation writes one log record when it is done. The steps of a sequence of
  events are the transformations completed, read off these records, and the calls of the
  progress callback, in the order they happened.
\<close>

definition operation_of_message :: "message \<Rightarrow> string option" where
  "operation_of_message m =
     (case m of
        Removed_duplicate_rows n \<Rightarrow> Some ''remove_duplicates''
      | Removed_empty_rows n \<Rightarrow> Some ''remove_empty_rows''
      | Removed_empty_columns n \<Rightarrow> Some ''remove_empty_columns''
      | Trimmed_spaces \<Rightarrow> Some ''trim_spaces''
      | Normalized_column_names n \<Rightarrow> Some ''normalize_column_names''
      | Converted_to_title_case \<Rightarrow> Some ''title_case_cells''
      | Loading_file path \<Rightarrow> None
      | Successfully_cleaned path \<Rightarrow> None)"

datatype step = Transformed string | Called int

fun steps :: "'x event list \<Rightarrow> step list" where
  "steps [] = []"
| "steps (Info m # evs) =
     (case operation_of_message m of Some name \<Rightarrow> Transformed name # steps evs | None \<Rightarrow> steps evs)"
| "steps (Error_cleaning_file e # evs) = steps evs"
| "steps (Progress p # evs) = Called p # steps evs"

fun hook_calls :: "'x event list \<Rightarrow> int list" where
  "hook_calls [] = []"
| "hook_calls (Progress p # evs) = p # hook_calls evs"
| "hook_calls (ev # evs) = hook_calls evs"

text \<open>
  How a transformation ends: when it raises, nothing was logged and the error is not a
  division by zero; when it returns, it has written the one log record of its operation.
\<close>

definition completes_as :: "string \<Rightarrow> ('b, 'x, 'h, 'n) transformation \<Rightarrow> bool" where
  "completes_as name func =
     (\<forall>df w. case func df w of
        (Inl e, w') \<Rightarrow> w' = w \<and> e \<noteq> ZeroDivisionError
      | (Inr df', w') \<Rightarrow> (\<exists>m. w' = logger_info m w \<and> operation_of_message m = Some name))"

text \<open>
  Calling the callback with a list of values, one after the other, from a given state of
  its owner, up to the first call that raises.
\<close>

fun call_all :: "('x, 'h) hook \<Rightarrow> int list \<Rightarrow> 'h \<Rightarrow> 'x option \<times> 'h" where
  "call_all h [] u = (None, u)"
| "call_all h (p # ps) u =
     (case h p u of (None, u') \<Rightarrow> call_all h ps u' | (Some x, u') \<Rightarrow> (Some x, u'))"

definition occurs_in :: "string \<Rightarrow> string \<Rightarrow> bool" where
  \<comment> \<open>\<open>old in s\<close>\<close>
  "occurs_in old s = (\<exists>pre suf. s = pre @ old @ suf)"

text \<open>
  What the loop of \<open>trim_spaces\<close> and \<open>title_case_cells\<close> makes of one column when
  headers are unique, as the facts below show: a column stored as \<open>object\<close> has \<open>f\<close>
  applied to the string form of every value, any other column is kept.
\<close>

definition convert_column ::
  "(str \<Rightarrow> str) \<Rightarrow> ('n \<Rightarrow> str) \<Rightarrow> 'n column \<Rightarrow> 'n column" where
  "convert_column f nstr c =
     (if dtype c = Object then c\<lparr>vals := map (\<lambda>v. Text (f (astype_str nstr v))) (vals c)\<rparr> else c)"

section \<open>A small run\<close>

text \<open>
  The data set of the specification's end-to-end scenario, a world that holds it under
  \<open>book.xlsx\<close>, and surroundings in which nothing fails; file contents are kept as the
  list of columns they hold. All the texts are ASCII, so \<open>ascii_data\<close> serves as the
  database.
\<close>

definition demo_frame :: "int dataframe" where
  "demo_frame =
     \<lparr>index = [0, 1, 2, 3],
      columns =
        [\<lparr>label = codes ''Name'', dtype = Object,
          vals = [Text (codes ''a''), Text (codes ''a''), Null, Text (codes '' b '')]\<rparr>,
         \<lparr>label = codes ''Val'', dtype = Float64, vals = [Num 1, Num 1, Null, Num 2]\<rparr>]\<rparr>"

definition two_rows_no_columns :: "int dataframe" where
  \<comment> \<open>\<open>pd.DataFrame(index=[0, 1])\<close>\<close>
  "two_rows_no_columns = \<lparr>index = [0, 1], columns = []\<rparr>"

definition demo_env :: "(int column list, unit, int) env" where
  "demo_env =
     \<lparr>timestamp_backup = ''20240101_120000'',
      timestamp_cleaned = ''20240101_120001'',
      read_fault = (\<lambda>path. None),
      write_fault = (\<lambda>path. None),
      parse_excel = (\<lambda>b. Inr \<lparr>index = [0..<length (vals (hd b))], columns = b\<rparr>),
      render_excel = (\<lambda>cs. Inr cs),
      num_str = (\<lambda>n. if n = 1 then codes ''1.0'' else codes ''2.0''),
      unicode = ascii_data\<rparr>"

definition demo_world :: "(int column list, unit, int list) world" where
  "demo_world = \<lparr>files = [''book.xlsx'' \<mapsto> columns demo_frame], events = [], ui = []\<rparr>"

definition xls_world :: "(int column list, unit, int list) world" where
  \<comment> \<open>the same workbook under the name \<open>book.xls\<close>\<close>
  "xls_world = \<lparr>files = [''book.xls'' \<mapsto> columns demo_frame], events = [], ui = []\<rparr>"

definition clash_frame :: "int dataframe" where
  \<comment> \<open>two headers that normalize to the same name\<close>
  "clash_frame =
     \<lparr>index = [0],
      columns =
        [\<lparr>label = codes ''a_b'', dtype = Object, vals = [Text (codes ''x'')]\<rparr>,
         \<lparr>label = codes ''A B'', dtype = Object, vals = [Text (codes ''y'')]\<rparr>]\<rparr>"

definition clash_world :: "(int column list, unit, int list) world" where
  "clash_world = \<lparr>files = [''book.xlsx'' \<mapsto> columns clash_frame], events = [], ui = []\<rparr>"

definition demo_hook :: "(unit, int list) hook" where
  \<comment> \<open>a callback that keeps the values it is given\<close>
  "demo_hook p u = (None, u @ [p])"

definition no_flags :: CleaningConfig where
  "no_flags =
     \<lparr>opt_remove_duplicates = False, opt_remove_empty_rows = False,
      opt_remove_empty_columns = False, opt_trim_spaces = False,
      opt_normalize_column_names = False, opt_title_case_cells = False\<rparr>"

definition clash_config :: CleaningConfig where
  "clash_config =
     no_flags\<lparr>opt_normalize_column_names := True, opt_title_case_cells := True\<rparr>"

definition demo_config :: CleaningConfig where
  "demo_config =
     no_flags\<lparr>opt_remove_duplicates := True, opt_remove_empty_rows := True,
              opt_trim_spaces := True\<rparr>"

section \<open>Facts about the string functions\<close>

lemmas case_defs = is_letter_def is_upper_def is_lower_def to_upper_def to_lower_def us_def
  ascii_space_def

lemma is_letter_to_upper: "is_letter (to_upper c) = is_letter c"
  by (auto simp: case_defs)

lemma is_letter_to_lower: "is_letter (to_lower c) = is_letter c"
  by (auto simp: case_defs)

lemma is_letter_us: "is_letter (us c) = is_letter c"
  by (auto simp: case_defs)

lemma to_upper_us: "to_upper (us c) = us (to_upper c)"
  by (auto simp: case_defs)

lemma to_lower_us: "to_lower (us c) = us (to_lower c)"
  by (auto simp: case_defs)

lemma to_upper_to_upper: "to_upper (to_upper c) = to_upper c"
  by (auto simp: case_defs)

lemma to_lower_to_lower: "to_lower (to_lower c) = to_lower c"
  by (auto simp: case_defs)

lemma space_not_letter: "ascii_space c \<Longrightarrow> \<not> is_letter c"
  by (auto simp: case_defs)

lemma ascii_space_us: "ascii_space (us c) \<longleftrightarrow> ascii_space c \<or> c = 95"
  by (auto simp: case_defs)

lemma ascii_space_to_upper: "ascii_space (to_upper c) = ascii_space c"
  by (auto simp: case_defs)

lemma ascii_space_to_lower: "ascii_space (to_lower c) = ascii_space c"
  by (auto simp: case_defs)

lemma underscore_to_upper: "to_upper c = 95 \<longleftrightarrow> c = 95"
  by (auto simp: case_defs)

lemma underscore_to_lower: "to_lower c = 95 \<longleftrightarrow> c = 95"
  by (auto simp: case_defs)

lemma ascii_to_upper: "c < 128 \<Longrightarrow> to_upper c < 128"
  by (auto simp: case_defs)

lemma ascii_to_lower: "c < 128 \<Longrightarrow> to_lower c < 128"
  by (auto simp: case_defs)

lemma ascii_us: "c < 128 \<Longrightarrow> us c < 128"
  by (auto simp: case_defs)

lemma replace_underscore: "replace s (codes ''_'') (codes '' '') = map us s"
proof -
  have "replace_nonempty [95] [32] s = map us s"
    by (induction s) (simp_all add: startswith_def us_def)
  then show ?thesis by (simp add: replace_def codes_def)
qed

lemma normalize_name_eq: "normalize_name ud s = map us (title ud (strip ud s))"
  by (simp add: normalize_name_def replace_underscore)

subsection \<open>Stripping\<close>

lemma rstrip_append: "rstrip ud z @ rev (takeWhile (whitespace ud) (rev z)) = z"
proof -
  have "rev (takeWhile (whitespace ud) (rev z) @ dropWhile (whitespace ud) (rev z)) = z"
    by simp
  then show ?thesis
    unfolding rstrip_def rev_append .
qed

lemma strip_decomposition:
  "\<exists>pre suf. s = pre @ strip ud s @ suf \<and> list_all (whitespace ud) pre \<and> list_all (whitespace ud) suf"
proof -
  define pre where "pre = takeWhile (whitespace ud) s"
  define suf where "suf = rev (takeWhile (whitespace ud) (rev (lstrip ud s)))"
  have "s = pre @ lstrip ud s" by (simp add: pre_def lstrip_def)
  moreover have "lstrip ud s = strip ud s @ suf"
    by (simp add: suf_def strip_def rstrip_append)
  ultimately have "s = pre @ strip ud s @ suf" by simp
  moreover have "list_all (whitespace ud) pre"
    by (auto simp: pre_def list_all_iff dest: set_takeWhileD)
  moreover have "list_all (whitespace ud) suf"
    by (auto simp: suf_def list_all_iff dest: set_takeWhileD)
  ultimately show ?thesis by blast
qed

lemma set_strip: "set (strip ud z) \<subseteq> set z"
proof -
  have "set (rstrip ud y) \<subseteq> set y" for y
    using set_dropWhileD [of _ "whitespace ud" "rev y"] by (auto simp: rstrip_def)
  moreover have "set (lstrip ud z) \<subseteq> set z"
    using set_dropWhileD [of _ "whitespace ud" z] by (auto simp: lstrip_def)
  ultimately show ?thesis unfolding strip_def by blast
qed

lemma lstrip_fixed: "z \<noteq> [] \<Longrightarrow> \<not> whitespace ud (hd z) \<Longrightarrow> lstrip ud z = z"
  by (cases z) (simp_all add: lstrip_def)

lemma rstrip_fixed:
  assumes "z \<noteq> []" and "\<not> whitespace ud (last z)"
  shows "rstrip ud z = z"
proof -
  from assms have "\<not> whitespace ud (hd (rev z))" by (simp add: hd_rev)
  moreover from assms have "rev z \<noteq> []" by simp
  ultimately have "dropWhile (whitespace ud) (rev z) = rev z"
    by (cases "rev z") simp_all
  then show ?thesis by (simp add: rstrip_def)
qed

lemma strip_fixed:
  assumes "no_outer_space ud z"
  shows "strip ud z = z"
proof (cases "z = []")
  case True
  then show ?thesis by (simp add: strip_def lstrip_def rstrip_def)
next
  case False
  with assms have "lstrip ud z = z" and "rstrip ud z = z"
    by (simp_all add: lstrip_fixed rstrip_fixed no_outer_space_def)
  then show ?thesis by (simp add: strip_def)
qed

lemma rstrip_last: "rstrip ud t \<noteq> [] \<Longrightarrow> \<not> whitespace ud (last (rstrip ud t))"
proof -
  assume "rstrip ud t \<noteq> []"
  then have n: "dropWhile (whitespace ud) (rev t) \<noteq> []" by (simp add: rstrip_def)
  then have "\<not> whitespace ud (hd (dropWhile (whitespace ud) (rev t)))" by (rule hd_dropWhile)
  with n show ?thesis by (simp add: rstrip_def last_rev)
qed

lemma rstrip_hd: "rstrip ud t \<noteq> [] \<Longrightarrow> hd (rstrip ud t) = hd t"
  using rstrip_append [of ud t] by (metis hd_append2)

lemma strip_no_outer_space: "no_outer_space ud (strip ud s)"
proof (cases "strip ud s = []")
  case True
  then show ?thesis by (simp add: no_outer_space_def)
next
  case False
  then have r: "rstrip ud (lstrip ud s) \<noteq> []" by (simp add: strip_def)
  then have l: "lstrip ud s \<noteq> []" by (auto simp: rstrip_def)
  then have "\<not> whitespace ud (hd (lstrip ud s))"
    unfolding lstrip_def by (rule hd_dropWhile)
  with r have "\<not> whitespace ud (hd (strip ud s))" by (simp add: strip_def rstrip_hd)
  moreover from r have "\<not> whitespace ud (last (strip ud s))" by (simp add: strip_def rstrip_last)
  ultimately show ?thesis by (simp add: no_outer_space_def)
qed

lemma strip_ascii:
  assumes "agrees_on_ascii ud" and "ascii s"
  shows "strip ud s = strip ascii_data s"
proof -
  have w: "whitespace ud c = whitespace ascii_data c" if "c < 128" for c
    using assms(1) that by (simp add: agrees_on_ascii_def ascii_data_def)
  have d: "dropWhile (whitespace ud) t = dropWhile (whitespace ascii_data) t" if "ascii t" for t
    using that by (intro dropWhile_cong) (auto simp: ascii_def list_all_iff w)
  have "ascii (dropWhile (whitespace ascii_data) s)"
    using assms(2) by (auto simp: ascii_def list_all_iff dest: set_dropWhileD)
  then have "ascii (rev (dropWhile (whitespace ascii_data) s))"
    by (simp add: ascii_def list_all_iff)
  from d [OF this] d [OF assms(2)] show ?thesis
    by (simp add: strip_def lstrip_def rstrip_def)
qed

lemma ascii_strip: "ascii s \<Longrightarrow> ascii (strip ud s)"
  using set_strip [of ud s] by (auto simp: ascii_def list_all_iff)

subsection \<open>Title case\<close>

lemma do_title_positions:
  "cs = drop i s \<Longrightarrow>
   do_title ud s i b cs
     = concat (map (\<lambda>j. if (if j = i then b else cased ud (s ! (j - 1))) then lower_ucs4 ud s j
                         else title_full ud (s ! j)) [i..<length s])"
proof (induction cs arbitrary: i b)
  case Nil
  then show ?case by simp
next
  case (Cons c cs)
  from Cons.prems have i: "i < length s"
    by (metis drop_eq_Nil2 list.distinct(1) not_le)
  with Cons.prems have c: "s ! i = c" and cs: "cs = drop (Suc i) s"
    by (simp_all add: Cons_nth_drop_Suc [symmetric])
  have "map (\<lambda>j. if (if j = Suc i then cased ud c else cased ud (s ! (j - 1))) then lower_ucs4 ud s j
                         else title_full ud (s ! j)) [Suc i..<length s]
      = map (\<lambda>j. if (if j = i then b else cased ud (s ! (j - 1))) then lower_ucs4 ud s j
                         else title_full ud (s ! j)) [Suc i..<length s]"
    by (rule map_cong [OF refl]) (auto simp: c)
  with Cons.IH [OF cs, of "cased ud c"] i c show ?case
    by (simp add: upt_conv_Cons)
qed

lemma title_positions:
  "title ud s = concat (map (\<lambda>i. if 0 < i \<and> cased ud (s ! (i - 1)) then lower_ucs4 ud s i
                                   else title_full ud (s ! i)) [0..<length s])"
proof -
  have "map (\<lambda>j. if (if j = 0 then False else cased ud (s ! (j - 1))) then lower_ucs4 ud s j
                         else title_full ud (s ! j)) [0..<length s]
     = map (\<lambda>i. if 0 < i \<and> cased ud (s ! (i - 1)) then lower_ucs4 ud s i
                                   else title_full ud (s ! i)) [0..<length s]"
    by (rule map_cong [OF refl]) auto
  with do_title_positions [of s 0 s ud False] show ?thesis by (simp add: title_def)
qed

lemma do_title_ascii:
  assumes "agrees_on_ascii ud" and "ascii s"
  shows "cs = drop i s \<Longrightarrow> do_title ud s i b cs = ascii_title_from b cs"
proof (induction cs arbitrary: i b)
  case Nil
  then show ?case by simp
next
  case (Cons c cs)
  from Cons.prems have i: "i < length s"
    by (metis drop_eq_Nil2 list.distinct(1) not_le)
  with Cons.prems have c: "s ! i = c" and cs: "cs = drop (Suc i) s"
    by (simp_all add: Cons_nth_drop_Suc [symmetric])
  from i c assms(2) have a: "c < 128" by (auto simp: ascii_def list_all_iff)
  with assms(1) have t: "title_full ud c = [to_upper c]" "lower_full ud c = [to_lower c]"
    "cased ud c = is_letter c"
    by (simp_all add: agrees_on_ascii_def)
  from a c have "lower_ucs4 ud s i = lower_full ud c" by (simp add: lower_ucs4_def)
  with Cons.IH [OF cs, of "cased ud c"] t show ?case by simp
qed

lemma title_ascii:
  "agrees_on_ascii ud \<Longrightarrow> ascii s \<Longrightarrow> title ud s = ascii_title_from False s"
  using do_title_ascii [of ud s s 0 False] by (simp add: title_def)

lemma agrees_ascii_data: "agrees_on_ascii ascii_data"
  by (simp add: agrees_on_ascii_def ascii_data_def)

lemma length_ascii_title_from: "length (ascii_title_from b s) = length s"
  by (induction s arbitrary: b) auto

lemma ascii_title_from_nth:
  "i < length s \<Longrightarrow> ascii_title_from b s ! i =
     (if (if i = 0 then b else is_letter (s ! (i - 1))) then to_lower (s ! i) else to_upper (s ! i))"
proof (induction s arbitrary: b i)
  case Nil
  then show ?case by simp
next
  case (Cons c cs)
  show ?case
  proof (cases i)
    case 0
    then show ?thesis by simp
  next
    case (Suc j)
    with Cons.prems have "j < length cs" by simp
    from Cons.IH [OF this, of "is_letter c"] Suc show ?thesis
      by (cases j) simp_all
  qed
qed

lemma ascii_ascii_title_from: "ascii s \<Longrightarrow> ascii (ascii_title_from b s)"
  by (induction s arbitrary: b) (simp_all add: ascii_def ascii_to_upper ascii_to_lower)

subsection \<open>Normalizing ASCII names\<close>

lemma whitespace_ascii_data: "whitespace ascii_data = ascii_space"
  by (simp add: ascii_data_def)

lemma normalize_name_ascii:
  assumes "agrees_on_ascii ud" and "ascii s"
  shows "normalize_name ud s = map us (ascii_title_from False (strip ascii_data s))"
    and "ascii (normalize_name ud s)"
proof -
  from assms have s: "strip ud s = strip ascii_data s" by (rule strip_ascii)
  from assms(2) have a: "ascii (strip ascii_data s)" by (rule ascii_strip)
  with assms(1) have "title ud (strip ascii_data s) = ascii_title_from False (strip ascii_data s)"
    by (rule title_ascii)
  then show e: "normalize_name ud s = map us (ascii_title_from False (strip ascii_data s))"
    by (simp add: normalize_name_eq s)
  from a have "ascii (ascii_title_from False (strip ascii_data s))"
    by (rule ascii_ascii_title_from)
  then show "ascii (normalize_name ud s)"
    unfolding e by (auto simp: ascii_def list_all_iff ascii_us)
qed

lemma title_from_us_fixed:
  "ascii_title_from b (map us (ascii_title_from b s)) = map us (ascii_title_from b s)"
  by (induction s arbitrary: b)
    (simp_all add: is_letter_us is_letter_to_upper is_letter_to_lower to_upper_us to_lower_us
      to_upper_to_upper to_lower_to_lower)

lemma title_from_append:
  "ascii_title_from b (xs @ ys) =
     ascii_title_from b xs @ ascii_title_from (if xs = [] then b else is_letter (last xs)) ys"
  by (induction xs arbitrary: b) simp_all

lemma title_fixed_prefix:
  assumes "ascii_title_from b (xs @ ys) = xs @ ys"
  shows "ascii_title_from b xs = xs"
  using assms by (simp add: title_from_append length_ascii_title_from)

lemma title_fixed_lstrip:
  "ascii_title_from False z = z \<Longrightarrow>
     ascii_title_from False (dropWhile ascii_space z) = dropWhile ascii_space z"
  by (induction z) (auto simp: space_not_letter)

lemma title_fixed_strip:
  assumes "ascii_title_from False z = z"
  shows "ascii_title_from False (strip ascii_data z) = strip ascii_data z"
proof -
  have l: "ascii_title_from False (lstrip ascii_data z) = lstrip ascii_data z"
    using assms by (simp add: lstrip_def whitespace_ascii_data title_fixed_lstrip)
  have "lstrip ascii_data z = rstrip ascii_data (lstrip ascii_data z)
      @ rev (takeWhile (whitespace ascii_data) (rev (lstrip ascii_data z)))"
    by (simp add: rstrip_append)
  with l have "ascii_title_from False (rstrip ascii_data (lstrip ascii_data z))
      = rstrip ascii_data (lstrip ascii_data z)"
    by (metis title_fixed_prefix)
  then show ?thesis by (simp add: strip_def)
qed

lemma us_fixed: "95 \<notin> set z \<Longrightarrow> map us z = z"
  by (induction z) (auto simp: us_def)

lemma no_underscore_us: "95 \<notin> set (map us z)"
  by (induction z) (auto simp: us_def)

lemma ascii_title_from_Nil_iff: "ascii_title_from b y = [] \<longleftrightarrow> y = []"
  by (cases y) simp_all

lemma last_ascii_title_from:
  "y \<noteq> [] \<Longrightarrow> last (ascii_title_from b y) = to_lower (last y)
     \<or> last (ascii_title_from b y) = to_upper (last y)"
  by (induction y arbitrary: b) (auto simp: ascii_title_from_Nil_iff)

lemma letter_no_space:
  assumes "\<not> ascii_space c" and "c \<noteq> 95"
  shows "\<not> ascii_space (us (to_lower c))" and "\<not> ascii_space (us (to_upper c))"
  using assms
  by (simp_all add: ascii_space_us ascii_space_to_upper ascii_space_to_lower
      underscore_to_upper underscore_to_lower)

lemma normalize_name_twice:
  assumes "agrees_on_ascii ud" and "ascii s"
  shows "normalize_name ud (normalize_name ud s) = strip ud (normalize_name ud s)"
proof -
  define z where "z = normalize_name ud s"
  from assms have z: "z = map us (ascii_title_from False (strip ascii_data s))" and a: "ascii z"
    unfolding z_def by (rule normalize_name_ascii)+
  have "ascii_title_from False z = z" by (simp add: z title_from_us_fixed)
  then have t: "ascii_title_from False (strip ascii_data z) = strip ascii_data z"
    by (rule title_fixed_strip)
  have "95 \<notin> set z" by (simp only: z no_underscore_us not_False_eq_True)
  with set_strip [of ascii_data z] have "95 \<notin> set (strip ascii_data z)" by blast
  then have "map us (strip ascii_data z) = strip ascii_data z" by (rule us_fixed)
  with t have "normalize_name ud z = strip ascii_data z"
    by (simp add: normalize_name_ascii(1) [OF assms(1) a])
  also have "\<dots> = strip ud z" by (simp add: strip_ascii [OF assms(1) a])
  finally show ?thesis by (simp only: z_def)
qed

lemma normalize_name_idem:
  assumes "agrees_on_ascii ud" and "ascii s" and "\<not> edge_underscore (strip ud s)"
  shows "normalize_name ud (normalize_name ud s) = normalize_name ud s"
proof -
  define y where "y = strip ascii_data s"
  define z where "z = normalize_name ud s"
  have ys: "y = strip ud s" by (simp add: y_def strip_ascii [OF assms(1,2)])
  have z: "z = map us (ascii_title_from False y)"
    by (simp add: z_def y_def normalize_name_ascii(1) [OF assms(1,2)])
  have a: "ascii z" unfolding z_def by (rule normalize_name_ascii(2) [OF assms(1,2)])
  have w: "whitespace ud c = ascii_space c" if "c < 128" for c
    using assms(1) that by (simp add: agrees_on_ascii_def)
  have "z = [] \<or> (\<not> ascii_space (hd z) \<and> \<not> ascii_space (last z))"
  proof (cases "y = []")
    case True
    then show ?thesis by (simp add: z)
  next
    case False
    with strip_no_outer_space [of ascii_data s]
    have sp: "\<not> ascii_space (hd y)" "\<not> ascii_space (last y)"
      by (simp_all add: y_def no_outer_space_def whitespace_ascii_data)
    from assms(3) False have u: "hd y \<noteq> 95" "last y \<noteq> 95"
      by (simp_all add: edge_underscore_def ys [symmetric])
    from False obtain c cs where y: "y = c # cs" by (cases y) auto
    have "hd z = us (to_upper (hd y))" by (simp add: z y)
    with sp u have h: "\<not> ascii_space (hd z)"
      by (simp add: letter_no_space)
    from False have tn: "ascii_title_from False y \<noteq> []"
      by (simp add: ascii_title_from_Nil_iff)
    then have "last z = us (last (ascii_title_from False y))" by (simp add: z last_map)
    with last_ascii_title_from [OF False, of False] letter_no_space [OF sp(2) u(2)]
    have "\<not> ascii_space (last z)"
      by auto
    with h show ?thesis by simp
  qed
  moreover have "z \<noteq> [] \<Longrightarrow> hd z < 128 \<and> last z < 128"
    using a by (auto simp: ascii_def list_all_iff)
  ultimately have "no_outer_space ud z"
    by (auto simp: no_outer_space_def w)
  then have "strip ud z = z" by (rule strip_fixed)
  moreover have "normalize_name ud z = strip ud z"
    unfolding z_def by (rule normalize_name_twice [OF assms(1,2)])
  ultimately show ?thesis by (simp add: z_def)
qed

lemma ascii_codes: "list_all (\<lambda>c. (of_char c :: nat) < 128) s \<Longrightarrow> ascii (codes s)"
  by (simp add: ascii_def codes_def list_all_iff)

section \<open>Column names\<close>

text \<open>
  C2, as the specification states it: normalize-column-names is idempotent for every
  column name. It is not: a header that begins with an underscore gets a leading blank
  from the replacement, which comes after the stripping, and a second application strips
  that blank.
\<close>

theorem normalize_twice_differs:
  "normalize_name ascii_data (normalize_name ascii_data (codes ''_a''))
     \<noteq> normalize_name ascii_data (codes ''_a'')"
  by code_simp

text \<open>
  The header of the counterexample is ASCII text, on which every database that agrees
  with Unicode gives the same names. Beyond ASCII, idempotence also fails without any
  underscore, as with the entries of U+0130 and U+0307: \<open>D\<close>, U+0130, \<open>Y\<close> becomes
  \<open>D\<close>, \<open>i\<close>, U+0307, \<open>y\<close>, and then \<open>D\<close>, \<open>i\<close>, U+0307, \<open>Y\<close>.
\<close>

lemma underscore_header_twice:
  assumes "agrees_on_ascii ud"
  shows "normalize_name ud (normalize_name ud (codes ''_a'')) \<noteq> normalize_name ud (codes ''_a'')"
proof -
  have a: "ascii (codes ''_a'')" by code_simp
  from normalize_name_ascii(2) [OF assms a] have b: "ascii (normalize_name ud (codes ''_a''))" .
  have "normalize_name ud (normalize_name ud (codes ''_a''))
      = normalize_name ascii_data (normalize_name ascii_data (codes ''_a''))"
    using normalize_name_ascii(1) [OF assms b] normalize_name_ascii(1) [OF agrees_ascii_data b]
      normalize_name_ascii(1) [OF assms a] normalize_name_ascii(1) [OF agrees_ascii_data a]
    by simp
  moreover have "normalize_name ud (codes ''_a'') = normalize_name ascii_data (codes ''_a'')"
    using normalize_name_ascii(1) [OF assms a] normalize_name_ascii(1) [OF agrees_ascii_data a]
    by simp
  moreover have "normalize_name ascii_data (normalize_name ascii_data (codes ''_a''))
     \<noteq> normalize_name ascii_data (codes ''_a'')" by code_simp
  ultimately show ?thesis by simp
qed

lemma dotted_header_twice:
  "agrees_on_ascii dotted_data
   \<and> normalize_name dotted_data [0x44, 0x130, 0x59] = [0x44, 0x69, 0x307, 0x79]
   \<and> normalize_name dotted_data [0x44, 0x69, 0x307, 0x79] = [0x44, 0x69, 0x307, 0x59]"
proof -
  have "agrees_on_ascii dotted_data"
    by (simp add: agrees_on_ascii_def dotted_data_def ascii_data_def)
  moreover have "normalize_name dotted_data [0x44, 0x130, 0x59] = [0x44, 0x69, 0x307, 0x79]"
    by code_simp
  moreover have "normalize_name dotted_data [0x44, 0x69, 0x307, 0x79] = [0x44, 0x69, 0x307, 0x59]"
    by code_simp
  ultimately show ?thesis by simp
qed

text \<open>
  C2, amended: for every column name of ASCII characters whose stripped text neither
  begins nor ends with an underscore, applying normalize-column-names twice yields the
  same name as applying it once; \<open>"first_name "\<close> maps to \<open>"First Name"\<close>, and
  \<open>"First Name"\<close> to itself.
\<close>

theorem normalize_column_names_idempotent:
  assumes "agrees_on_ascii ud" and "ascii s" and "\<not> edge_underscore (strip ud s)"
  shows "normalize_name ud (normalize_name ud s) = normalize_name ud s
    \<and> normalize_name ud (codes ''first_name '') = codes ''First Name''
    \<and> normalize_name ud (codes ''First Name'') = codes ''First Name''"
proof -
  have a: "ascii (codes ''first_name '')" and b: "ascii (codes ''First Name'')" by code_simp+
  have "normalize_name ascii_data (codes ''first_name '') = codes ''First Name''" by code_simp
  then have "normalize_name ud (codes ''first_name '') = codes ''First Name''"
    using normalize_name_ascii(1) [OF assms(1) a] normalize_name_ascii(1) [OF agrees_ascii_data a]
    by simp
  moreover have "normalize_name ascii_data (codes ''First Name'') = codes ''First Name''"
    by code_simp
  then have "normalize_name ud (codes ''First Name'') = codes ''First Name''"
    using normalize_name_ascii(1) [OF assms(1) b] normalize_name_ascii(1) [OF agrees_ascii_data b]
    by simp
  ultimately show ?thesis using normalize_name_idem [OF assms] by simp
qed

theorem normalize_column_names_idempotent_witness:
  "agrees_on_ascii ascii_data \<and> ascii (codes ''first_name '')
    \<and> \<not> edge_underscore (strip ascii_data (codes ''first_name ''))
    \<and> normalize_name ascii_data (normalize_name ascii_data (codes ''first_name ''))
        = normalize_name ascii_data (codes ''first_name '')
    \<and> normalize_name ascii_data (codes ''first_name '') = codes ''First Name''"
proof -
  have a: "ascii (codes ''first_name '')" by code_simp
  have h: "\<not> edge_underscore (strip ascii_data (codes ''first_name ''))" by code_simp
  from normalize_column_names_idempotent [OF agrees_ascii_data a h] agrees_ascii_data a h
  show ?thesis by simp
qed

text \<open>
  C6, as the specification states it: the title-casing step capitalizes the first letter
  of each whitespace-delimited word and lowercases the rest. On \<open>first_name\<close>, one
  whitespace-delimited word, that reading gives \<open>First name\<close>; the code gives
  \<open>First Name\<close>.
\<close>

theorem normalize_differs_from_spec_title:
  "normalize_name ascii_data (codes ''first_name'')
     \<noteq> normalize_name_spec ascii_data (codes ''first_name'')
    \<and> normalize_name ascii_data (codes ''first_name'') = codes ''First Name''
    \<and> normalize_name_spec ascii_data (codes ''first_name'') = codes ''First name''"
  by code_simp

lemma title_ascii_letters:
  assumes "agrees_on_ascii ud" and "ascii t"
  shows "length (title ud t) = length t"
    and "i < length t \<Longrightarrow>
      title ud t ! i = (if 0 < i \<and> is_letter (t ! (i - 1)) then to_lower (t ! i) else to_upper (t ! i))"
  using assms by (simp_all add: title_ascii length_ascii_title_from ascii_title_from_nth)

text \<open>
  C6, amended: normalize-column-names renames every column, and changes nothing else, to
  the header text stripped of surrounding whitespace, then title-cased, then with every
  underscore replaced by one blank, in that order; title case gives every character that
  does not follow a cased character its title-case mapping and every character that
  follows a cased character its lower-case mapping. On ASCII text that is: a letter that
  does not follow a letter is capitalized and a letter that follows a letter is
  lowercased, so a word starts after any character that is not a letter, an underscore or
  a digit included.
\<close>

theorem normalize_column_names_steps:
  "(\<exists>df'. normalize_column_names ud df w
         = (Inr df', logger_info (Normalized_column_names (length (columns df))) w)
      \<and> labels df' = map (normalize_name ud) (labels df)
      \<and> index df' = index df
      \<and> map dtype (columns df') = map dtype (columns df)
      \<and> map vals (columns df') = map vals (columns df))
   \<and> normalize_name ud s = map us (title ud (strip ud s))
   \<and> (\<exists>pre suf. s = pre @ strip ud s @ suf
         \<and> list_all (whitespace ud) pre \<and> list_all (whitespace ud) suf)
   \<and> no_outer_space ud (strip ud s)
   \<and> title ud t = concat (map (\<lambda>i. if 0 < i \<and> cased ud (t ! (i - 1)) then lower_ucs4 ud t i
                                      else title_full ud (t ! i)) [0..<length t])
   \<and> (agrees_on_ascii ud \<and> ascii t \<longrightarrow>
        length (title ud t) = length t
        \<and> (\<forall>i < length t. title ud t ! i =
             (if 0 < i \<and> is_letter (t ! (i - 1)) then to_lower (t ! i) else to_upper (t ! i))))"
proof -
  have "\<exists>df'. normalize_column_names ud df w
         = (Inr df', logger_info (Normalized_column_names (length (columns df))) w)
      \<and> labels df' = map (normalize_name ud) (labels df)
      \<and> index df' = index df
      \<and> map dtype (columns df') = map dtype (columns df)
      \<and> map vals (columns df') = map vals (columns df)"
    by (simp add: normalize_column_names_def labels_def Let_def comp_def)
  moreover note normalize_name_eq [of ud s] strip_decomposition [of s ud]
    strip_no_outer_space [of ud s] title_positions [of ud t]
  moreover have "agrees_on_ascii ud \<and> ascii t \<longrightarrow>
        length (title ud t) = length t
        \<and> (\<forall>i < length t. title ud t ! i =
             (if 0 < i \<and> is_letter (t ! (i - 1)) then to_lower (t ! i) else to_upper (t ! i)))"
    using title_ascii_letters [of ud t] by blast
  ultimately show ?thesis by (intro conjI)
qed

theorem normalize_column_names_steps_witness:
  "agrees_on_ascii ascii_data \<and> ascii (codes ''first_name'')
   \<and> normalize_name ascii_data (codes ''first_name '') = codes ''First Name''
   \<and> title ascii_data (codes ''first_name'') ! 6 = of_char CHR ''N''
   \<and> title ascii_data (codes ''first_name'') ! 7 = of_char CHR ''a''"
proof -
  let ?t = "codes ''first_name''"
  have a: "ascii ?t" by code_simp
  have l: "(6::nat) < length ?t" "(7::nat) < length ?t" by (simp_all add: codes_def)
  from normalize_column_names_steps [of ascii_data _ _ "codes ''first_name ''" ?t]
  have n: "normalize_name ascii_data (codes ''first_name '')
      = map us (title ascii_data (strip ascii_data (codes ''first_name '')))"
    and "agrees_on_ascii ascii_data \<and> ascii ?t \<longrightarrow>
        length (title ascii_data ?t) = length ?t
        \<and> (\<forall>i < length ?t. title ascii_data ?t ! i =
             (if 0 < i \<and> is_letter (?t ! (i - 1)) then to_lower (?t ! i) else to_upper (?t ! i)))"
    by blast+
  with agrees_ascii_data a l
  have "title ascii_data ?t ! 6
        = (if 0 < (6::nat) \<and> is_letter (?t ! (6 - 1)) then to_lower (?t ! 6) else to_upper (?t ! 6))"
    and "title ascii_data ?t ! 7
        = (if 0 < (7::nat) \<and> is_letter (?t ! (7 - 1)) then to_lower (?t ! 7) else to_upper (?t ! 7))"
    by blast+
  moreover have "map us (title ascii_data (strip ascii_data (codes ''first_name '')))
      = codes ''First Name''" by code_simp
  moreover have "(if 0 < (6::nat) \<and> is_letter (?t ! (6 - 1)) then to_lower (?t ! 6) else to_upper (?t ! 6))
      = of_char CHR ''N''"
    by code_simp
  moreover have "(if 0 < (7::nat) \<and> is_letter (?t ! (7 - 1)) then to_lower (?t ! 7) else to_upper (?t ! 7))
      = of_char CHR ''a''"
    by code_simp
  ultimately show ?thesis using n agrees_ascii_data a by simp
qed

section \<open>Rows of a frame\<close>

lemma select_positions:
  "length xs = n \<Longrightarrow> select (map P [0..<n]) xs = map ((!) xs) (filter P [0..<n])"
proof -
  assume n: "length xs = n"
  then have "zip (map P [0..<n]) xs = map (\<lambda>i. (P i, xs ! i)) [0..<n]"
    by (intro nth_equalityI) simp_all
  then show ?thesis
    by (simp add: select_def filter_map comp_def)
qed

lemma list_ex_not_isna: "list_ex (\<lambda>v. \<not> isna v) r \<longleftrightarrow> \<not> list_all isna r"
  by (simp add: list_ex_iff list_all_iff)

lemma rows_select_rows:
  assumes "wf_frame df"
  shows "rows (select_rows (map P [0..<length (index df)]) df)
    = map (row df) (filter P [0..<length (index df)])"
    and "index (select_rows (map P [0..<length (index df)]) df)
    = map ((!) (index df)) (filter P [0..<length (index df)])"
proof -
  let ?n = "length (index df)"
  let ?js = "filter P [0..<?n]"
  let ?df' = "select_rows (map P [0..<?n]) df"
  show i: "index ?df' = map ((!) (index df)) ?js"
    by (simp add: select_rows_def select_positions)
  have c: "columns ?df' = map (\<lambda>c. c\<lparr>vals := map ((!) (vals c)) ?js\<rparr>) (columns df)"
    using assms by (simp add: select_rows_def wf_frame_def list_all_iff select_positions)
  have "row ?df' k = row df (?js ! k)" if "k < length ?js" for k
    using that by (simp add: row_def c comp_def)
  then have "map (row ?df') [0..<length ?js] = map (\<lambda>k. row df (?js ! k)) [0..<length ?js]"
    by simp
  also have "\<dots> = map (row df) (map ((!) ?js) [0..<length ?js])"
    by (simp add: comp_def)
  also have "\<dots> = map (row df) ?js"
    by (simp only: map_nth)
  finally show "rows ?df' = map (row df) ?js"
    by (simp add: rows_def i)
qed

lemma rows_dropna_rows:
  assumes "wf_frame df"
  shows "rows (dropna_rows df) = filter (\<lambda>r. \<not> list_all isna r) (rows df)"
    and "zip (index (dropna_rows df)) (rows (dropna_rows df))
      = filter (\<lambda>(l, r). \<not> list_all isna r) (zip (index df) (rows df))"
proof -
  let ?n = "length (index df)"
  let ?P = "\<lambda>i. \<not> list_all isna (row df i)"
  have d: "dropna_rows df = select_rows (map ?P [0..<?n]) df"
    by (simp add: dropna_rows_def rows_def list_ex_not_isna comp_def)
  have r1: "rows (dropna_rows df) = map (row df) (filter ?P [0..<?n])"
    and i1: "index (dropna_rows df) = map ((!) (index df)) (filter ?P [0..<?n])"
    unfolding d using rows_select_rows [OF assms, of ?P] by simp_all
  show "rows (dropna_rows df) = filter (\<lambda>r. \<not> list_all isna r) (rows df)"
    unfolding r1 by (simp add: rows_def filter_map comp_def)
  have z: "zip (index df) (rows df) = map (\<lambda>i. (index df ! i, row df i)) [0..<?n]"
    by (intro nth_equalityI) (simp_all add: rows_def)
  show "zip (index (dropna_rows df)) (rows (dropna_rows df))
      = filter (\<lambda>(l, r). \<not> list_all isna r) (zip (index df) (rows df))"
    unfolding r1 i1 z by (simp add: filter_map comp_def zip_map_map zip_same_conv_map)
qed

lemma duplicated_from_positions:
  "duplicated_from seen rs
     = map (\<lambda>k. rs ! k \<in> set seen \<or> (\<exists>j<k. rs ! j = rs ! k)) [0..<length rs]"
proof (induction rs arbitrary: seen)
  case Nil
  show ?case by simp
next
  case (Cons r rs)
  have "map (\<lambda>k. (r # rs) ! k \<in> set seen \<or> (\<exists>j<k. (r # rs) ! j = (r # rs) ! k)) [0..<length (r # rs)]
    = (r \<in> set seen) # map (\<lambda>k. rs ! k \<in> set (r # seen) \<or> (\<exists>j<k. rs ! j = rs ! k)) [0..<length rs]"
  proof -
    have "(\<exists>j<Suc k. (r # rs) ! j = rs ! k) \<longleftrightarrow> rs ! k = r \<or> (\<exists>j<k. rs ! j = rs ! k)" for k
      by (auto simp: less_Suc_eq_0_disj)
    then show ?thesis
      by (simp add: upt_conv_Cons map_Suc_upt [symmetric] comp_def del: upt_Suc) blast
  qed
  with Cons.IH [of "r # seen"] show ?case by simp
qed

lemma rows_drop_duplicates:
  assumes "wf_frame df" and "columns df = [] \<longrightarrow> index df = []"
  shows "rows (drop_duplicates df)
      = map (row df) (filter (\<lambda>i. \<forall>j<i. row df j \<noteq> row df i) [0..<length (index df)])"
    and "index (drop_duplicates df)
      = map ((!) (index df)) (filter (\<lambda>i. \<forall>j<i. row df j \<noteq> row df i) [0..<length (index df)])"
proof -
  let ?n = "length (index df)"
  let ?P = "\<lambda>i. \<forall>j<i. row df j \<noteq> row df i"
  have "map Not (duplicated_from [] (rows df)) = map ?P [0..<?n]"
    by (simp add: duplicated_from_positions rows_def)
  then have d: "select_rows (map Not (duplicated_from [] (rows df))) df = select_rows (map ?P [0..<?n]) df"
    by simp
  have e: "drop_duplicates df = select_rows (map ?P [0..<?n]) df"
  proof (cases "index df = []")
    case True
    with assms(1) have "list_all (\<lambda>c. vals c = []) (columns df)"
      by (simp add: wf_frame_def)
    then have "map (\<lambda>c. c\<lparr>vals := []\<rparr>) (columns df) = columns df"
      by (induction "columns df") (auto simp: list_all_iff map_idI)
    with True show ?thesis
      by (simp add: drop_duplicates_def frame_empty_def select_rows_def select_def)
  next
    case False
    with assms(2) d show ?thesis
      by (simp add: drop_duplicates_def frame_empty_def)
  qed
  show "rows (drop_duplicates df) = map (row df) (filter ?P [0..<?n])"
    and "index (drop_duplicates df) = map ((!) (index df)) (filter ?P [0..<?n])"
    unfolding e using rows_select_rows [OF assms(1), of ?P] by simp_all
qed

lemma labels_select_rows: "labels (select_rows keep df) = labels df"
  by (simp add: labels_def select_rows_def comp_def)

lemma first_occurrences_distinct:
  "distinct (map f (filter (\<lambda>i. \<forall>j<i. f j \<noteq> f i) [0..<n]))"
proof -
  have "inj_on f (set (filter (\<lambda>i. \<forall>j<i. f j \<noteq> f i) [0..<n]))"
  proof (rule inj_onI)
    fix x y
    assume "x \<in> set (filter (\<lambda>i. \<forall>j<i. f j \<noteq> f i) [0..<n])"
      and "y \<in> set (filter (\<lambda>i. \<forall>j<i. f j \<noteq> f i) [0..<n])"
      and e: "f x = f y"
    then have x: "\<forall>j<x. f j \<noteq> f x" and y: "\<forall>j<y. f j \<noteq> f y" by simp_all
    show "x = y"
    proof (rule ccontr)
      assume "x \<noteq> y"
      then consider "x < y" | "y < x" by linarith
      then show False
      proof cases
        case 1
        with y e show False by blast
      next
        case 2
        with x e show False by auto
      qed
    qed
  qed
  then show ?thesis by (simp add: distinct_map)
qed

lemma first_occurrences_set:
  "set (map f (filter (\<lambda>i. \<forall>j<i. f j \<noteq> f i) [0..<n])) = set (map f [0..<n])"
proof
  show "set (map f (filter (\<lambda>i. \<forall>j<i. f j \<noteq> f i) [0..<n])) \<subseteq> set (map f [0..<n])"
    by auto
  show "set (map f [0..<n]) \<subseteq> set (map f (filter (\<lambda>i. \<forall>j<i. f j \<noteq> f i) [0..<n]))"
  proof
    fix r
    assume "r \<in> set (map f [0..<n])"
    then obtain i where i: "i < n" "f i = r" by auto
    define k where "k = (LEAST k. f k = r)"
    from i(2) have k: "f k = r" unfolding k_def by (rule LeastI)
    from i(2) have "k \<le> i" unfolding k_def by (rule Least_le)
    with i(1) have "k < n" by simp
    moreover have "f j \<noteq> f k" if "j < k" for j
    proof -
      from that have "f j \<noteq> r"
        unfolding k_def by (rule not_less_Least)
      with k show ?thesis by simp
    qed
    ultimately have "k \<in> set (filter (\<lambda>i. \<forall>j<i. f j \<noteq> f i) [0..<n])"
      by simp
    then have "f k \<in> f ` set (filter (\<lambda>i. \<forall>j<i. f j \<noteq> f i) [0..<n])"
      by (rule imageI)
    with k show "r \<in> set (map f (filter (\<lambda>i. \<forall>j<i. f j \<noteq> f i) [0..<n]))"
      by (simp only: set_map)
  qed
qed

section \<open>Empty rows and empty columns\<close>

text \<open>
  C5: empty-row removal deletes a row exactly when every cell of the row is the null
  marker, so a row of empty strings stays, and no remaining row is all null; after
  empty-column removal no remaining column is all null. The rows are compared together
  with their row labels, so the statement is about each row and not only about the set of
  rows.
\<close>

theorem remove_empty_rows_and_columns:
  assumes "wf_frame df"
  shows "(\<exists>df' w'. remove_empty_rows df w = (Inr df', w')
            \<and> zip (index df') (rows df')
                = filter (\<lambda>(l, r). \<not> list_all isna r) (zip (index df) (rows df))
            \<and> rows df' = filter (\<lambda>r. \<not> list_all isna r) (rows df)
            \<and> (\<forall>r \<in> set (rows df). r \<noteq> [] \<and> list_all (\<lambda>v. v = Text []) r \<longrightarrow> r \<in> set (rows df'))
            \<and> (\<forall>r \<in> set (rows df'). \<not> list_all isna r)
            \<and> labels df' = labels df)
       \<and> (\<exists>df' w'. remove_empty_columns df w = (Inr df', w')
            \<and> columns df' = filter (\<lambda>c. \<not> list_all isna (vals c)) (columns df)
            \<and> index df' = index df
            \<and> (\<forall>c \<in> set (columns df'). \<not> list_all isna (vals c)))"
proof -
  let ?df' = "dropna_rows df"
  have r: "rows ?df' = filter (\<lambda>r. \<not> list_all isna r) (rows df)"
    by (rule rows_dropna_rows(1) [OF assms])
  have "r \<in> set (rows ?df')" if "r \<in> set (rows df)" "r \<noteq> []" "list_all (\<lambda>v. v = Text []) r" for r
  proof -
    from that(2,3) have "\<not> list_all isna r"
      by (cases r) (auto simp: isna_def)
    with that(1) show ?thesis by (simp add: r)
  qed
  moreover have "\<forall>r \<in> set (rows ?df'). \<not> list_all isna r"
    by (simp add: r)
  moreover have "labels ?df' = labels df"
    by (simp add: dropna_rows_def labels_select_rows)
  moreover have "remove_empty_rows df w = (Inr ?df',
      logger_info (Removed_empty_rows (int (length (index df)) - int (length (index ?df')))) w)"
    by (simp add: remove_empty_rows_def Let_def)
  ultimately have rows_part: "\<exists>df' w'. remove_empty_rows df w = (Inr df', w')
            \<and> zip (index df') (rows df')
                = filter (\<lambda>(l, r). \<not> list_all isna r) (zip (index df) (rows df))
            \<and> rows df' = filter (\<lambda>r. \<not> list_all isna r) (rows df)
            \<and> (\<forall>r \<in> set (rows df). r \<noteq> [] \<and> list_all (\<lambda>v. v = Text []) r \<longrightarrow> r \<in> set (rows df'))
            \<and> (\<forall>r \<in> set (rows df'). \<not> list_all isna r)
            \<and> labels df' = labels df"
    using rows_dropna_rows(2) [OF assms] r by blast
  let ?dc = "dropna_columns df"
  have "remove_empty_columns df w = (Inr ?dc,
      logger_info (Removed_empty_columns (int (length (columns df)) - int (length (columns ?dc)))) w)"
    by (simp add: remove_empty_columns_def Let_def)
  moreover have "columns ?dc = filter (\<lambda>c. \<not> list_all isna (vals c)) (columns df)"
    by (simp add: dropna_columns_def list_ex_not_isna)
  moreover have "index ?dc = index df"
    by (simp add: dropna_columns_def)
  moreover have "\<forall>c \<in> set (columns ?dc). \<not> list_all isna (vals c)"
    by (simp add: dropna_columns_def list_ex_not_isna)
  ultimately have cols_part: "\<exists>df' w'. remove_empty_columns df w = (Inr df', w')
            \<and> columns df' = filter (\<lambda>c. \<not> list_all isna (vals c)) (columns df)
            \<and> index df' = index df
            \<and> (\<forall>c \<in> set (columns df'). \<not> list_all isna (vals c))"
    by blast
  from rows_part cols_part show ?thesis by blast
qed

theorem remove_empty_rows_and_columns_witness:
  "wf_frame demo_frame
   \<and> (\<exists>df' w'. remove_empty_rows demo_frame demo_world = (Inr df', w')
         \<and> rows df' = [[Text (codes ''a''), Num 1], [Text (codes ''a''), Num 1], [Text (codes '' b ''), Num 2]])"
proof -
  have h: "wf_frame demo_frame" by code_simp
  have "filter (\<lambda>r. \<not> list_all isna r) (rows demo_frame)
      = [[Text (codes ''a''), Num 1], [Text (codes ''a''), Num 1], [Text (codes '' b ''), Num 2]]"
    by code_simp
  with remove_empty_rows_and_columns [OF h, of demo_world] h show ?thesis
    by metis
qed

section \<open>Duplicate rows\<close>

text \<open>
  Outside the data model of the specification: \<open>drop_duplicates\<close> returns a frame that
  has row labels and no column as it is, although its rows are equal in every column,
  there being none.
\<close>

lemma drop_duplicates_without_columns:
  "wf_frame two_rows_no_columns
   \<and> \<not> tabular two_rows_no_columns
   \<and> row two_rows_no_columns 0 = row two_rows_no_columns 1
   \<and> fst (remove_duplicates two_rows_no_columns demo_world) = Inr two_rows_no_columns
   \<and> rows two_rows_no_columns = [[], []]"
  by code_simp

text \<open>
  C7: for every data set, duplicate-row removal treats two rows as duplicates exactly
  when every column value is equal, null equal to null, keeps the first occurrence of
  each group of duplicates, drops the later ones and preserves the relative order of the
  rows that stay. The rows are taken together with their row labels, which tell the
  occurrences of equal rows apart.
\<close>

theorem remove_duplicates_keeps_first:
  assumes "tabular df"
  shows "\<exists>df' w'. remove_duplicates df w = (Inr df', w')
     \<and> zip (index df') (rows df')
         = map (\<lambda>i. (index df ! i, row df i))
             (filter (\<lambda>i. \<forall>j<i. row df j \<noteq> row df i) [0..<length (index df)])
     \<and> distinct (rows df')
     \<and> set (rows df') = set (rows df)
     \<and> subseq (rows df') (rows df)
     \<and> labels df' = labels df
     \<and> (\<forall>i j. row df i = row df j \<longleftrightarrow> (\<forall>c \<in> set (columns df). vals c ! i = vals c ! j))"
proof -
  let ?n = "length (index df)"
  let ?P = "\<lambda>i. \<forall>j<i. row df j \<noteq> row df i"
  let ?df' = "drop_duplicates df"
  from assms have wf: "wf_frame df" and nc: "columns df = [] \<longrightarrow> index df = []"
    by (simp_all add: tabular_def)
  note r = rows_drop_duplicates(1) [OF wf nc] and i = rows_drop_duplicates(2) [OF wf nc]
  have "remove_duplicates df w = (Inr ?df',
      logger_info (Removed_duplicate_rows (int ?n - int (length (index ?df')))) w)"
    by (simp add: remove_duplicates_def Let_def)
  moreover have "zip (index ?df') (rows ?df') = map (\<lambda>i. (index df ! i, row df i)) (filter ?P [0..<?n])"
    unfolding r i by (simp add: zip_map_map zip_same_conv_map)
  moreover have "distinct (rows ?df')"
    unfolding r by (rule first_occurrences_distinct)
  moreover have "set (rows ?df') = set (rows df)"
  proof -
    have "set (rows ?df') = set (map (row df) [0..<?n])"
      unfolding r by (rule first_occurrences_set)
    then show ?thesis by (simp only: rows_def)
  qed
  moreover have "subseq (rows ?df') (rows df)"
  proof -
    have "subseq (rows ?df') (map (row df) [0..<?n])"
      unfolding r by (intro subseq_map subseq_filter_left)
    then show ?thesis by (simp only: rows_def)
  qed
  moreover have "labels ?df' = labels df"
    by (simp add: drop_duplicates_def labels_select_rows)
  moreover have "\<forall>i j. row df i = row df j \<longleftrightarrow> (\<forall>c \<in> set (columns df). vals c ! i = vals c ! j)"
    by (simp add: row_def)
  ultimately show ?thesis by blast
qed

theorem remove_duplicates_keeps_first_witness:
  "tabular demo_frame
   \<and> (\<exists>df' w'. remove_duplicates demo_frame demo_world = (Inr df', w')
         \<and> distinct (rows df') \<and> set (rows df') = set (rows demo_frame))
   \<and> rows (drop_duplicates demo_frame) = [[Text (codes ''a''), Num 1], [Null, Null], [Text (codes '' b ''), Num 2]]"
proof -
  have h: "tabular demo_frame" by code_simp
  have "rows (drop_duplicates demo_frame) = [[Text (codes ''a''), Num 1], [Null, Null], [Text (codes '' b ''), Num 2]]"
    by code_simp
  with remove_duplicates_keeps_first [OF h, of demo_world] h show ?thesis
    by blast
qed

section \<open>Text columns\<close>

lemma getitem_unique:
  assumes "distinct (map label cs)" and "col \<in> set (map label cs)"
  shows "\<exists>c. filter (\<lambda>c. label c = col) cs = [c] \<and> c \<in> set cs \<and> label c = col"
  using assms
proof (induction cs)
  case Nil
  then show ?case by simp
next
  case (Cons a cs)
  show ?case
  proof (cases "label a = col")
    case True
    with Cons.prems(1) have "col \<notin> set (map label cs)" by auto
    then have "filter (\<lambda>c. label c = col) cs = []"
      by (auto simp: filter_empty_conv)
    with True show ?thesis by simp
  next
    case False
    with Cons show ?thesis by auto
  qed
qed

lemma labels_setitem: "labels (setitem df col vs) = labels df"
  by (simp add: labels_def setitem_def comp_def if_distrib [of label] cong: if_cong)

lemma index_setitem: "index (setitem df col vs) = index df"
  by (simp add: setitem_def)

lemma text_columns_loop_distinct:
  assumes "distinct (labels df)" and "distinct cols" and "set cols \<subseteq> set (labels df)"
  shows "(text_columns_loop f nstr cols df :: 'x py_error + 'n dataframe)
    = Inr (df\<lparr>columns := map (\<lambda>c. if label c \<in> set cols then convert_column f nstr c else c)
                          (columns df)\<rparr>)"
  using assms
proof (induction cols arbitrary: df)
  case Nil
  then show ?case by simp
next
  case (Cons col cols)
  from Cons.prems have "col \<in> set (map label (columns df))" and d: "distinct (map label (columns df))"
    by (simp_all add: labels_def)
  from getitem_unique [OF d this(1)] obtain c
    where c: "getitem df col = [c]" "c \<in> set (columns df)" "label c = col"
    by (auto simp: getitem_def)
  have uniq: "c' = c" if "c' \<in> set (columns df)" "label c' = col" for c'
  proof -
    from that have "c' \<in> set (getitem df col)" by (simp add: getitem_def)
    with c(1) show ?thesis by simp
  qed
  from Cons.prems have notin: "col \<notin> set cols" by simp
  let ?loop = "text_columns_loop f nstr :: str list \<Rightarrow> 'n dataframe \<Rightarrow> 'x py_error + 'n dataframe"
  show ?case
  proof (cases "dtype c = Object")
    case True
    let ?df1 = "setitem df col (map (\<lambda>v. Text (f (astype_str nstr v))) (vals c))"
    have "?loop (col # cols) df = ?loop cols ?df1"
      using c(1) True by simp
    also have "\<dots> = Inr (?df1\<lparr>columns := map (\<lambda>c. if label c \<in> set cols then convert_column f nstr c else c)
                          (columns ?df1)\<rparr>)"
    proof -
      from Cons.prems have "distinct (labels ?df1)" "distinct cols" "set cols \<subseteq> set (labels ?df1)"
        by (simp_all add: labels_setitem)
      then show ?thesis by (rule Cons.IH)
    qed
    also have "map (\<lambda>c. if label c \<in> set cols then convert_column f nstr c else c) (columns ?df1)
      = map (\<lambda>c. if label c \<in> set (col # cols) then convert_column f nstr c else c) (columns df)"
      using notin True uniq by (auto simp: setitem_def convert_column_def)
    finally show ?thesis by (simp add: setitem_def)
  next
    case False
    have "?loop (col # cols) df = ?loop cols df"
      using c(1) False by simp
    also have "\<dots> = Inr (df\<lparr>columns := map (\<lambda>c. if label c \<in> set cols then convert_column f nstr c else c)
                          (columns df)\<rparr>)"
    proof -
      from Cons.prems have "distinct (labels df)" "distinct cols" "set cols \<subseteq> set (labels df)"
        by simp_all
      then show ?thesis by (rule Cons.IH)
    qed
    also have "map (\<lambda>c. if label c \<in> set cols then convert_column f nstr c else c) (columns df)
      = map (\<lambda>c. if label c \<in> set (col # cols) then convert_column f nstr c else c) (columns df)"
      using False uniq by (auto simp: convert_column_def)
    finally show ?thesis .
  qed
qed

lemma text_columns_loop_labels:
  "distinct (labels df) \<Longrightarrow> text_columns_loop f nstr (labels df) df
     = Inr (df\<lparr>columns := map (convert_column f nstr) (columns df)\<rparr>)"
proof -
  assume d: "distinct (labels df)"
  have "map (\<lambda>c. if label c \<in> set (labels df) then convert_column f nstr c else c) (columns df)
    = map (convert_column f nstr) (columns df)"
    by (simp add: labels_def)
  with text_columns_loop_distinct [OF d d subset_refl, of f nstr] show ?thesis by simp
qed

lemma length_getitem_setitem:
  "length (getitem (setitem df col vs) col') = length (getitem df col')"
proof -
  have "length (filter (\<lambda>c. label c = col') (map g cs)) = length (filter (\<lambda>c. label c = col') cs)"
    if "\<And>c. label (g c) = label c" for g :: "'a column \<Rightarrow> 'a column" and cs
    using that by (induction cs) simp_all
  then show ?thesis by (simp add: getitem_def setitem_def)
qed

lemma text_columns_loop_duplicate:
  assumes "col \<in> set cols" and "length (getitem df col) \<noteq> 1"
  shows "\<exists>e :: 'x py_error. text_columns_loop f nstr cols df = Inl e \<and> (e = AttributeError \<or> e = ValueError)"
  using assms
proof (induction cols arbitrary: df)
  case Nil
  then show ?case by simp
next
  case (Cons a cols)
  show ?case
  proof (cases "\<exists>c. getitem df a = [c]")
    case False
    then show ?thesis
      by (cases "getitem df a" rule: list.exhaust; cases "tl (getitem df a)") (auto split: list.splits)
  next
    case True
    then obtain c where c: "getitem df a = [c]" by blast
    with Cons.prems have "col \<in> set cols" by auto
    moreover note Cons.prems(2)
    ultimately show ?thesis
      using c Cons.IH [of df] Cons.IH [of "setitem df a (map (\<lambda>v. Text (f (astype_str nstr v))) (vals c))"]
      by (simp add: length_getitem_setitem)
  qed
qed

lemma not_distinct_getitem:
  assumes "\<not> distinct (labels df)"
  shows "\<exists>col \<in> set (labels df). length (getitem df col) \<noteq> 1"
proof -
  have "\<exists>col \<in> set (map label cs). length (filter (\<lambda>c. label c = col) cs) \<noteq> 1"
    if "\<not> distinct (map label cs)" for cs :: "'a column list"
    using that
  proof (induction cs)
    case Nil
    then show ?case by simp
  next
    case (Cons a cs)
    show ?case
    proof (cases "label a \<in> set (map label cs)")
      case True
      then have "filter (\<lambda>c. label c = label a) cs \<noteq> []"
        by (auto simp: filter_empty_conv)
      then have "length (filter (\<lambda>c. label c = label a) (a # cs)) \<noteq> 1" by simp
      then show ?thesis by (intro bexI [of _ "label a"]) simp_all
    next
      case False
      with Cons.prems have "\<not> distinct (map label cs)" by simp
      from Cons.IH [OF this] obtain col
        where col: "col \<in> set (map label cs)" "length (filter (\<lambda>c. label c = col) cs) \<noteq> 1"
        by blast
      with False have "label a \<noteq> col" by auto
      with col show ?thesis by (intro bexI [of _ col]) simp_all
    qed
  qed
  from this [of "columns df"] assms show ?thesis by (simp add: labels_def getitem_def)
qed

lemma text_columns_loop_iff:
  "(text_columns_loop f nstr (labels df) df :: 'x py_error + 'n dataframe) = Inr df'
     \<longleftrightarrow> distinct (labels df) \<and> df' = df\<lparr>columns := map (convert_column f nstr) (columns df)\<rparr>"
proof (cases "distinct (labels df)")
  case True
  then show ?thesis by (auto simp: text_columns_loop_labels)
next
  case False
  from not_distinct_getitem [OF this] obtain col
    where "col \<in> set (labels df)" "length (getitem df col) \<noteq> 1" by blast
  from text_columns_loop_duplicate [OF this, of f nstr]
  obtain e :: "'x py_error" where "text_columns_loop f nstr (labels df) df = Inl e" by blast
  with False show ?thesis by simp
qed

lemma trim_spaces_iff:
  "trim_spaces ud nstr df w = (Inr df', w') \<longleftrightarrow>
     distinct (labels df)
     \<and> df' = df\<lparr>columns := map (convert_column (strip ud) nstr) (columns df)\<rparr>
     \<and> w' = logger_info Trimmed_spaces w"
proof (cases "distinct (labels df)")
  case True
  then show ?thesis
    by (auto simp: trim_spaces_def text_columns_loop_labels)
next
  case False
  then show ?thesis
    by (auto simp: trim_spaces_def text_columns_loop_iff split: sum.splits)
qed

lemma title_case_cells_iff:
  "title_case_cells ud nstr df w = (Inr df', w') \<longleftrightarrow>
     distinct (labels df)
     \<and> df' = df\<lparr>columns := map (convert_column (title ud) nstr) (columns df)\<rparr>
     \<and> w' = logger_info Converted_to_title_case w"
proof (cases "distinct (labels df)")
  case True
  then show ?thesis
    by (auto simp: title_case_cells_def text_columns_loop_labels)
next
  case False
  then show ?thesis
    by (auto simp: title_case_cells_def text_columns_loop_iff split: sum.splits)
qed

lemma convert_column_object:
  "dtype c = Object \<Longrightarrow>
     vals (convert_column f nstr c)
       = map (\<lambda>v. case v of Null \<Rightarrow> Text (f (codes ''nan'')) | Num n \<Rightarrow> Text (f (nstr n))
                   | Text s \<Rightarrow> Text (f s))
           (vals c)"
  by (auto simp: convert_column_def astype_str_def split: cell.splits)

lemma convert_column_keeps:
  "label (convert_column f nstr c) = label c" "dtype (convert_column f nstr c) = dtype c"
  "dtype c \<noteq> Object \<Longrightarrow> vals (convert_column f nstr c) = vals c"
  by (simp_all add: convert_column_def)

lemma convert_column_no_null:
  "length (filter isna (vals (convert_column f nstr c)))
     = (if dtype c = Object then 0 else length (filter isna (vals c)))"
  by (simp add: convert_column_def isna_def filter_empty_conv)

lemma empty_cells_converted:
  "stat_empty_cells (get_dataframe_stats (df\<lparr>columns := map (convert_column f nstr) (columns df)\<rparr>))
     = sum_list (map (\<lambda>c. if dtype c = Object then 0 else length (filter isna (vals c))) (columns df))"
  by (simp add: get_dataframe_stats_def comp_def convert_column_no_null)

lemma nan_texts:
  assumes "agrees_on_ascii ud"
  shows "strip ud (codes ''nan'') = codes ''nan''" and "title ud (codes ''nan'') = codes ''Nan''"
proof -
  have a: "ascii (codes ''nan'')" by code_simp
  have "strip ascii_data (codes ''nan'') = codes ''nan''" by code_simp
  with strip_ascii [OF assms a] show "strip ud (codes ''nan'') = codes ''nan''" by simp
  have "ascii_title_from False (codes ''nan'') = codes ''Nan''" by code_simp
  with title_ascii [OF assms a] show "title ud (codes ''nan'') = codes ''Nan''" by simp
qed

text \<open>
  C9: where trim-whitespace returns a frame, which it does when the headers are unique,
  every cell of every text-typed column is a string without leading or trailing
  whitespace, a null marker in such a column has become the string \<open>nan\<close> (after
  title-case-cells, \<open>Nan\<close>), and the empty-cell count of the statistics counts only the
  nulls of the other columns. Whitespace is what the Unicode database of the interpreter
  says it is.
\<close>

theorem text_cells_after_trim_and_title:
  "(distinct (labels df) \<longrightarrow> (\<exists>df' w'. trim_spaces ud nstr df w = (Inr df', w')))
   \<and> (\<forall>df' w'. trim_spaces ud nstr df w = (Inr df', w') \<longrightarrow>
         columns df' = map (convert_column (strip ud) nstr) (columns df)
         \<and> index df' = index df
         \<and> (\<forall>c' \<in> set (columns df'). dtype c' = Object \<longrightarrow>
               (\<forall>v \<in> set (vals c'). \<exists>s. v = Text s \<and> no_outer_space ud s))
         \<and> stat_empty_cells (get_dataframe_stats df')
             = sum_list (map (\<lambda>c. if dtype c = Object then 0 else length (filter isna (vals c)))
                 (columns df)))
   \<and> (\<forall>df' w'. title_case_cells ud nstr df w = (Inr df', w') \<longrightarrow>
         columns df' = map (convert_column (title ud) nstr) (columns df))
   \<and> (\<forall>c. label (convert_column f nstr c) = label c \<and> dtype (convert_column f nstr c) = dtype c
         \<and> (dtype c \<noteq> Object \<longrightarrow> vals (convert_column f nstr c) = vals c)
         \<and> (dtype c = Object \<longrightarrow>
              vals (convert_column f nstr c)
                = map (\<lambda>v. case v of Null \<Rightarrow> Text (f (codes ''nan''))
                            | Num n \<Rightarrow> Text (f (nstr n)) | Text s \<Rightarrow> Text (f s)) (vals c)))
   \<and> (agrees_on_ascii ud \<longrightarrow>
         strip ud (codes ''nan'') = codes ''nan'' \<and> title ud (codes ''nan'') = codes ''Nan'')"
proof -
  have a: "distinct (labels df) \<longrightarrow> (\<exists>df' w'. trim_spaces ud nstr df w = (Inr df', w'))"
    by (simp add: trim_spaces_iff)
  have b: "columns df' = map (convert_column (strip ud) nstr) (columns df)
         \<and> index df' = index df
         \<and> (\<forall>c' \<in> set (columns df'). dtype c' = Object \<longrightarrow>
               (\<forall>v \<in> set (vals c'). \<exists>s. v = Text s \<and> no_outer_space ud s))
         \<and> stat_empty_cells (get_dataframe_stats df')
             = sum_list (map (\<lambda>c. if dtype c = Object then 0 else length (filter isna (vals c)))
                 (columns df))"
    if "trim_spaces ud nstr df w = (Inr df', w')" for df' w'
  proof -
    from that have d: "df' = df\<lparr>columns := map (convert_column (strip ud) nstr) (columns df)\<rparr>"
      by (simp add: trim_spaces_iff)
    have "\<exists>s. v = Text s \<and> no_outer_space ud s"
      if "c \<in> set (columns df)" "dtype (convert_column (strip ud) nstr c) = Object"
        "v \<in> set (vals (convert_column (strip ud) nstr c))" for c v
      using that by (auto simp: convert_column_def strip_no_outer_space split: if_splits)
    then show ?thesis
      unfolding d by (auto simp: empty_cells_converted)
  qed
  have c: "columns df' = map (convert_column (title ud) nstr) (columns df)"
    if "title_case_cells ud nstr df w = (Inr df', w')" for df' w'
    using that by (simp add: title_case_cells_iff)
  have d: "label (convert_column f nstr c) = label c \<and> dtype (convert_column f nstr c) = dtype c
         \<and> (dtype c \<noteq> Object \<longrightarrow> vals (convert_column f nstr c) = vals c)
         \<and> (dtype c = Object \<longrightarrow>
              vals (convert_column f nstr c)
                = map (\<lambda>v. case v of Null \<Rightarrow> Text (f (codes ''nan''))
                            | Num n \<Rightarrow> Text (f (nstr n)) | Text s \<Rightarrow> Text (f s)) (vals c))" for c
    by (simp add: convert_column_keeps convert_column_object)
  have e: "agrees_on_ascii ud \<longrightarrow>
         strip ud (codes ''nan'') = codes ''nan'' \<and> title ud (codes ''nan'') = codes ''Nan''"
    by (simp add: nan_texts)
  from a b c d e show ?thesis by blast
qed

theorem text_cells_after_trim_and_title_witness:
  "distinct (labels demo_frame)
   \<and> dtype (hd (columns demo_frame)) = Object
   \<and> agrees_on_ascii ascii_data
   \<and> (\<exists>df' w'. trim_spaces ascii_data (num_str demo_env) demo_frame demo_world = (Inr df', w')
         \<and> columns df' = map (convert_column (strip ascii_data) (num_str demo_env)) (columns demo_frame))
   \<and> map (convert_column (strip ascii_data) (num_str demo_env)) (columns demo_frame)
       = [\<lparr>label = codes ''Name'', dtype = Object,
           vals = [Text (codes ''a''), Text (codes ''a''), Text (codes ''nan''), Text (codes ''b'')]\<rparr>,
          \<lparr>label = codes ''Val'', dtype = Float64, vals = [Num 1, Num 1, Null, Num 2]\<rparr>]
   \<and> strip ascii_data (codes ''nan'') = codes ''nan''
   \<and> title ascii_data (codes ''nan'') = codes ''Nan''"
proof -
  have h: "distinct (labels demo_frame)" and o: "dtype (hd (columns demo_frame)) = Object"
    by code_simp+
  have "map (convert_column (strip ascii_data) (num_str demo_env)) (columns demo_frame)
       = [\<lparr>label = codes ''Name'', dtype = Object,
           vals = [Text (codes ''a''), Text (codes ''a''), Text (codes ''nan''), Text (codes ''b'')]\<rparr>,
          \<lparr>label = codes ''Val'', dtype = Float64, vals = [Num 1, Num 1, Null, Num 2]\<rparr>]"
    by code_simp
  with text_cells_after_trim_and_title [of demo_frame ascii_data "num_str demo_env" demo_world]
    h o agrees_ascii_data
  show ?thesis by blast
qed

section \<open>Backup and output paths\<close>

lemma length_replace_nonempty:
  "length old \<le> length new \<Longrightarrow> length s \<le> length (replace_nonempty old new s)"
proof (induction old new s rule: replace_nonempty.induct)
  case (1 old new)
  then show ?case by simp
next
  case (2 old new c cs)
  then show ?case by (auto simp: startswith_def)
qed

lemma startswith_iff: "startswith s p \<longleftrightarrow> (\<exists>suf. s = p @ suf)"
  by (metis append_eq_conv_conj startswith_def)

lemma replace_nonempty_longer:
  assumes "old \<noteq> []" and "length old < length new" and "occurs_in old s"
  shows "length s < length (replace_nonempty old new s)"
  using assms
proof (induction old new s rule: replace_nonempty.induct)
  case (1 old new)
  then show ?case by (simp add: occurs_in_def)
next
  case (2 old new c cs)
  show ?case
  proof (cases "startswith (c # cs) old")
    case True
    from "2.prems"(2) have "length old \<le> length new" by simp
    from length_replace_nonempty [OF this, of "drop (length old) (c # cs)"]
    have "length (c # cs) - length old \<le> length (replace_nonempty old new (drop (length old) (c # cs)))"
      by simp
    moreover have "length old \<le> length (c # cs)"
    proof -
      from True obtain suf where "c # cs = old @ suf" by (auto simp: startswith_iff)
      then have "length (c # cs) = length old + length suf" by (metis length_append)
      then show ?thesis by simp
    qed
    ultimately show ?thesis
      using True "2.prems"(1,2) by simp
  next
    case False
    from "2.prems"(3) obtain pre suf where ps: "c # cs = pre @ old @ suf"
      by (auto simp: occurs_in_def)
    with False have "pre \<noteq> []" by (auto simp: startswith_iff)
    with ps have "cs = tl pre @ old @ suf" by (cases pre) auto
    then have "occurs_in old cs" by (auto simp: occurs_in_def)
    with "2.IH"(2) False "2.prems"(1,2) show ?thesis by simp
  qed
qed

lemma replace_nonempty_absent:
  "\<not> occurs_in old s \<Longrightarrow> replace_nonempty old new s = s"
proof (induction old new s rule: replace_nonempty.induct)
  case (1 old new)
  then show ?case by simp
next
  case (2 old new c cs)
  from "2.prems" have n: "\<not> startswith (c # cs) old"
    by (auto simp: startswith_iff occurs_in_def) (metis append_Nil)
  from "2.prems" have "\<not> occurs_in old cs"
    by (auto simp: occurs_in_def) (metis append_Cons)
  with "2.IH"(2) n show ?case by simp
qed

lemma replace_nonempty_differ:
  assumes "old \<noteq> []" and "occurs_in old s"
    and "new1 = a # b1 # n1" and "new2 = a # b2 # n2" and "b1 \<noteq> b2"
  shows "replace_nonempty old new1 s \<noteq> replace_nonempty old new2 s"
  using assms(1,2)
proof (induction s rule: length_induct)
  case (1 s)
  show ?case
  proof (cases s)
    case Nil
    with "1.prems" show ?thesis by (simp add: occurs_in_def)
  next
    case (Cons c cs)
    show ?thesis
    proof (cases "startswith (c # cs) old")
      case True
      with "1.prems"(1) assms(3-5) Cons show ?thesis by simp
    next
      case False
      from "1.prems"(2) Cons obtain pre suf where ps: "c # cs = pre @ old @ suf"
        by (auto simp: occurs_in_def)
      with False have "pre \<noteq> []" by (auto simp: startswith_iff)
      with ps have "cs = tl pre @ old @ suf" by (cases pre) auto
      then have "occurs_in old cs" by (auto simp: occurs_in_def)
      with "1.IH" Cons "1.prems"(1) have "replace_nonempty old new1 cs \<noteq> replace_nonempty old new2 cs"
        by simp
      with False Cons show ?thesis by simp
    qed
  qed
qed

lemma backup_filename_iff:
  "backup_filename ts path = path \<longleftrightarrow> \<not> occurs_in ''.xlsx'' path"
proof
  assume e: "backup_filename ts path = path"
  show "\<not> occurs_in ''.xlsx'' path"
  proof
    assume "occurs_in ''.xlsx'' path"
    then have "length path < length (replace_nonempty ''.xlsx'' (''_backup_'' @ ts @ ''.xlsx'') path)"
      by (intro replace_nonempty_longer) simp_all
    with e show False by (simp add: backup_filename_def replace_def)
  qed
next
  assume "\<not> occurs_in ''.xlsx'' path"
  then show "backup_filename ts path = path"
    by (simp add: backup_filename_def replace_def replace_nonempty_absent)
qed

lemma cleaned_filename_iff:
  "get_cleaned_filename ev path = path \<longleftrightarrow> \<not> occurs_in ''.xlsx'' path"
proof
  assume e: "get_cleaned_filename ev path = path"
  show "\<not> occurs_in ''.xlsx'' path"
  proof
    assume "occurs_in ''.xlsx'' path"
    then have "length path
        < length (replace_nonempty ''.xlsx'' (''_cleaned_'' @ timestamp_cleaned ev @ ''.xlsx'') path)"
      by (intro replace_nonempty_longer) simp_all
    with e show False by (simp add: get_cleaned_filename_def replace_def)
  qed
next
  assume "\<not> occurs_in ''.xlsx'' path"
  then show "get_cleaned_filename ev path = path"
    by (simp add: get_cleaned_filename_def replace_def replace_nonempty_absent)
qed

lemma backup_cleaned_differ:
  assumes "occurs_in ''.xlsx'' path"
  shows "backup_filename ts path \<noteq> get_cleaned_filename ev path"
proof -
  have "replace_nonempty ''.xlsx'' (''_backup_'' @ ts @ ''.xlsx'') path
      \<noteq> replace_nonempty ''.xlsx'' (''_cleaned_'' @ timestamp_cleaned ev @ ''.xlsx'') path"
    using assms by (intro replace_nonempty_differ [where a = "CHR ''_''" and ?b1.0 = "CHR ''b''" and ?b2.0 = "CHR ''c''"]) simp_all
  then show ?thesis by (simp add: backup_filename_def get_cleaned_filename_def replace_def)
qed

lemma paths_distinct:
  assumes "backup_filename ts path \<noteq> path"
  shows "get_cleaned_filename ev path \<noteq> path"
    and "backup_filename ts path \<noteq> get_cleaned_filename ev path"
  using assms backup_filename_iff cleaned_filename_iff backup_cleaned_differ by blast+


text \<open>
  C1: the backup path and the cleaned-output path are both distinct from the input path
  and from each other. The two paths are made by replacing the text \<open>.xlsx\<close>, so for an
  input path that does not contain it, such as the \<open>.xls\<close> workbooks the file dialog
  offers, both are the input path itself. (For a path that contains \<open>.xlsx\<close> the three
  paths are distinct: \<open>backup_filename_iff\<close>, \<open>cleaned_filename_iff\<close>,
  \<open>backup_cleaned_differ\<close>.)
\<close>

theorem xls_paths_coincide:
  "backup_filename ts ''report.xls'' = ''report.xls''
   \<and> get_cleaned_filename ev ''report.xls'' = ''report.xls''"
  by (simp add: backup_filename_def get_cleaned_filename_def replace_def startswith_def)

section \<open>The percent values\<close>

text \<open>
  Two values of the rounding, against the doubles Python prints for \<open>0.1\<close> and for
  \<open>1 / 3\<close>, and the 21 values the percent expression can take.
\<close>

lemma round_double_tenth: "round_double (1 / 10) = 3602879701896397 / 2 ^ 55"
  by code_simp

lemma round_double_third: "round_double (1 / 3) = 6004799503160661 / 2 ^ 54"
  by code_simp

lemma percent_value_1: "percent_value 1 1 = 100"
  by code_simp

lemma percent_value_2: "percent_value 1 2 = 50 \<and> percent_value 2 2 = 100"
  by code_simp

lemma percent_value_3: "percent_value 1 3 = 33 \<and> percent_value 2 3 = 66 \<and> percent_value 3 3 = 100"
  by code_simp

lemma percent_value_4: "percent_value 1 4 = 25 \<and> percent_value 2 4 = 50 \<and> percent_value 3 4 = 75 \<and> percent_value 4 4 = 100"
  by code_simp

lemma percent_value_5: "percent_value 1 5 = 20 \<and> percent_value 2 5 = 40 \<and> percent_value 3 5 = 60 \<and> percent_value 4 5 = 80 \<and> percent_value 5 5 = 100"
  by code_simp

lemma percent_value_6: "percent_value 1 6 = 16 \<and> percent_value 2 6 = 33 \<and> percent_value 3 6 = 50 \<and> percent_value 4 6 = 66 \<and> percent_value 5 6 = 83 \<and> percent_value 6 6 = 100"
  by code_simp

lemma percent_value_floor:
  assumes "1 \<le> k" and "k \<le> n" and "n \<le> 6"
  shows "percent_value k n = int (k * 100 div n)"
proof -
  from assms have "n = 1 \<or> n = 2 \<or> n = 3 \<or> n = 4 \<or> n = 5 \<or> n = 6" by auto
  then show ?thesis
  proof (elim disjE)
    assume "n = 1"
    with assms have "k = 1" by auto
    with \<open>n = 1\<close> percent_value_1 show ?thesis by simp
  next
    assume n: "n = 2"
    with assms have "k = 1 \<or> k = 2" by auto
    with n percent_value_2 show ?thesis by auto
  next
    assume n: "n = 3"
    with assms have "k = 1 \<or> k = 2 \<or> k = 3" by auto
    with n percent_value_3 show ?thesis by auto
  next
    assume n: "n = 4"
    with assms have "k = 1 \<or> k = 2 \<or> k = 3 \<or> k = 4" by auto
    with n percent_value_4 show ?thesis by auto
  next
    assume n: "n = 5"
    with assms have "k = 1 \<or> k = 2 \<or> k = 3 \<or> k = 4 \<or> k = 5" by auto
    with n percent_value_5 show ?thesis by auto
  next
    assume n: "n = 6"
    with assms have "k = 1 \<or> k = 2 \<or> k = 3 \<or> k = 4 \<or> k = 5 \<or> k = 6" by auto
    with n percent_value_6 show ?thesis by auto
  qed
qed

lemma text_columns_loop_error:
  "text_columns_loop f nstr cols df = Inl e \<Longrightarrow> e = AttributeError \<or> e = ValueError"
  by (induction cols arbitrary: df) (auto split: list.splits if_splits)

lemma operations_complete:
  "(name, func, enabled) \<in> set (operations ev config) \<Longrightarrow> completes_as name func"
  unfolding operations_def completes_as_def
  by (auto simp: remove_duplicates_def remove_empty_rows_def remove_empty_columns_def
      trim_spaces_def normalize_column_names_def title_case_cells_def Let_def
      operation_of_message_def split: sum.splits dest: text_columns_loop_error)

section \<open>The loop over the enabled operations\<close>

lemma run_operations_no_zero_division:
  assumes "\<forall>(i, name, func, enabled) \<in> set l. completes_as name func"
    and "l = [] \<or> 0 < n"
  shows "fst (run_operations hook n l df w) \<noteq> Inl ZeroDivisionError"
  using assms
proof (induction l arbitrary: df w)
  case Nil
  then show ?case by simp
next
  case (Cons a l)
  obtain i name func enabled where a: "a = (i, name, func, enabled)" by (cases a) auto
  from Cons.prems have n: "0 < n" by simp
  from Cons.prems a have c: "completes_as name func" by simp
  from Cons.prems have rest: "\<forall>(i, name, func, enabled) \<in> set l. completes_as name func" by simp
  note IH = Cons.IH [OF rest disjI2 [OF n]]
  show ?case
  proof (cases enabled)
    case False
    with a IH show ?thesis by simp
  next
    case True
    show ?thesis
    proof (cases "func df w")
      case (Pair r w1)
      show ?thesis
      proof (cases r)
        case (Inl e)
        with c Pair have "e \<noteq> ZeroDivisionError"
          by (auto simp: completes_as_def split: prod.splits sum.splits)
        with a True Pair Inl show ?thesis by simp
      next
        case (Inr df1)
        show ?thesis
        proof (cases hook)
          case None
          with a True Pair Inr IH show ?thesis by simp
        next
          case (Some h)
          show ?thesis
          proof (cases "call_hook h (percent_value (i + 1) n) w1")
            case (Pair r2 w2)
            with a True \<open>func df w = (r, w1)\<close> Inr Some n IH show ?thesis
              by (cases r2) (simp_all add: percent_def)
          qed
        qed
      qed
    qed
  qed
qed

lemma enumerate_operations:
  "(i, name, func, enabled) \<in> set (enumerate_list (filter (\<lambda>op. snd (snd op)) (operations ev config)))
     \<Longrightarrow> completes_as name func \<and> enabled"
proof -
  assume "(i, name, func, enabled) \<in> set (enumerate_list (filter (\<lambda>op. snd (snd op)) (operations ev config)))"
  then have "(name, func, enabled) \<in> set (filter (\<lambda>op. snd (snd op)) (operations ev config))"
    unfolding enumerate_list_def by (rule set_zip_rightD)
  then show ?thesis by (auto dest: operations_complete)
qed

lemma create_backup_error:
  "create_backup ev path w = Inl e \<Longrightarrow> e \<noteq> ZeroDivisionError"
  by (auto simp: create_backup_def copy2_def Let_def split: option.splits if_splits sum.splits)

lemma read_excel_error:
  "read_excel ev path w = Inl e \<Longrightarrow> e \<noteq> ZeroDivisionError"
  by (auto simp: read_excel_def split: option.splits sum.splits)

lemma to_excel_error:
  "to_excel ev df path w = Inl e \<Longrightarrow> e \<noteq> ZeroDivisionError"
  by (auto simp: to_excel_def split: option.splits sum.splits)


text \<open>
  C10: the percent expression divides by the number of enabled operations, and is
  evaluated inside the loop over them only; whatever the configuration, all flags false
  included, and whatever the surroundings do, a run does not end in a division by zero.
\<close>

theorem never_divides_by_zero:
  fixes w :: "('b, 'x, 'h) world" and ev :: "('b, 'x, 'n) env"
  shows "fst (clean_excel_file ev file_path config progress_callback w) \<noteq> Inl ZeroDivisionError"
proof -
  let ?en = "filter (\<lambda>op. snd (snd op))
    (operations ev config :: (string \<times> ('b, 'x, 'h, 'n) transformation \<times> bool) list)"
  have l: "enumerate_list ?en = [] \<or> 0 < length ?en"
    by (cases ?en) (simp_all add: enumerate_list_def)
  have "\<forall>(i, name, func, enabled) \<in> set (enumerate_list ?en). completes_as name func"
    by (auto dest: enumerate_operations)
  from run_operations_no_zero_division [OF this l]
  have "fst (run_operations progress_callback (length ?en) (enumerate_list ?en) df' w') \<noteq> Inl ZeroDivisionError"
    for df' w' .
  then have r: "run_operations progress_callback (length ?en) (enumerate_list ?en) df' w'
      \<noteq> (Inl ZeroDivisionError, w'')" for df' w' w''
    by (metis fst_conv)
  have "fst (try_block ev file_path config progress_callback w) \<noteq> Inl ZeroDivisionError"
    unfolding try_block_def Let_def
    using r
    by (auto split: sum.splits prod.splits
        dest: create_backup_error read_excel_error to_excel_error)
  then show ?thesis
    by (auto simp: clean_excel_file_def split: sum.splits prod.splits)
qed

section \<open>What a run has done\<close>

lemma steps_append: "steps (xs @ ys) = steps xs @ steps ys"
  by (induction xs rule: steps.induct) (simp_all split: option.splits)

lemma hook_calls_append: "hook_calls (xs @ ys) = hook_calls xs @ hook_calls ys"
  by (induction xs rule: hook_calls.induct) simp_all

lemma call_hook_world:
  "call_hook h p w = (r, w') \<Longrightarrow>
     events w' = events w @ [Progress p] \<and> files w' = files w \<and> h p (ui w) = (r, ui w')"
  by (auto simp: call_hook_def split: prod.splits)

lemma completes_as_Inr:
  assumes "completes_as name func" and "func df w = (Inr df', w')"
  shows "\<exists>m. w' = logger_info m w \<and> operation_of_message m = Some name"
  using assms(1) [unfolded completes_as_def, THEN spec [where x = df], THEN spec [where x = w]]
    assms(2) by simp

lemma completes_as_Inl:
  assumes "completes_as name func" and "func df w = (Inl e, w')"
  shows "w' = w"
  using assms(1) [unfolded completes_as_def, THEN spec [where x = df], THEN spec [where x = w]]
    assms(2) by simp

lemma upt_shift: "[k..<k + Suc m] = k # [Suc k..<Suc k + m]"
  by (simp add: upt_conv_Cons del: upt_Suc)

lemma run_operations_trace:
  fixes h :: "('x, 'h) hook" and w :: "('b, 'x, 'h) world"
  assumes "run_operations (Some h) n (zip [k..<k + length es] es) df w = (r, w')"
    and "\<forall>(name, func, enabled) \<in> set es. enabled \<and> completes_as name func"
    and "k + length es \<le> n"
  shows "\<exists>new m res. events w' = events w @ new \<and> files w' = files w \<and> m \<le> length es
    \<and> steps new = concat (map (\<lambda>(j, name). [Transformed name, Called (percent_value j n)])
                      (zip [Suc k..<Suc k + m] (map fst es)))
    \<and> hook_calls new = map (\<lambda>j. percent_value j n) [Suc k..<Suc k + m]
    \<and> call_all h (hook_calls new) (ui w) = (res, ui w')
    \<and> (\<forall>x. res = Some x \<longrightarrow> r = Inl (External x))
    \<and> (\<not> isl r \<longrightarrow> m = length es \<and> res = None)"
  using assms
proof (induction es arbitrary: k df w)
  case Nil
  then have "r = Inr df" "w' = w" by simp_all
  then have "events w' = events w @ [] \<and> files w' = files w \<and> 0 \<le> length ([] :: (string \<times> ('b, 'x, 'h, 'n) transformation \<times> bool) list)
    \<and> steps ([] :: 'x event list) = concat (map (\<lambda>(j, name). [Transformed name, Called (percent_value j n)])
                      (zip [Suc k..<Suc k + 0] (map fst ([] :: (string \<times> ('b, 'x, 'h, 'n) transformation \<times> bool) list))))
    \<and> hook_calls ([] :: 'x event list) = map (\<lambda>j. percent_value j n) [Suc k..<Suc k + 0]
    \<and> call_all h (hook_calls ([] :: 'x event list)) (ui w) = (None, ui w')
    \<and> (\<forall>x. (None :: 'x option) = Some x \<longrightarrow> r = Inl (External x))
    \<and> (\<not> isl r \<longrightarrow> 0 = length ([] :: (string \<times> ('b, 'x, 'h, 'n) transformation \<times> bool) list) \<and> (None :: 'x option) = None)"
    by simp
  then show ?case by blast
next
  case (Cons a es)
  obtain name func enabled where a: "a = (name, func, enabled)" by (cases a) auto
  from Cons.prems(2) a have en: enabled and c: "completes_as name func" by simp_all
  have z: "zip [k..<k + length (a # es)] (a # es)
      = (k, name, func, enabled) # zip [Suc k..<Suc k + length es] es"
    using upt_shift [of k "length es"] by (simp add: a del: upt_Suc)
  from Cons.prems(3) have n: "0 < n" and k: "Suc k + length es \<le> n" by simp_all
  let ?p = "percent_value (Suc k) n"
  let ?Q = "\<lambda>new m res. events w' = events w @ new \<and> files w' = files w \<and> m \<le> length (a # es)
    \<and> steps new = concat (map (\<lambda>(j, name). [Transformed name, Called (percent_value j n)])
                      (zip [Suc k..<Suc k + m] (map fst (a # es))))
    \<and> hook_calls new = map (\<lambda>j. percent_value j n) [Suc k..<Suc k + m]
    \<and> call_all h (hook_calls new) (ui w) = (res, ui w')
    \<and> (\<forall>x. res = Some x \<longrightarrow> r = Inl (External x))
    \<and> (\<not> isl r \<longrightarrow> m = length (a # es) \<and> res = None)"
  obtain r1 w1 where f: "func df w = (r1, w1)" by (cases "func df w") auto
  show ?case
  proof (cases r1)
    case (Inl e)
    from completes_as_Inl [OF c f [unfolded Inl]] have w1: "w1 = w" .
    from Cons.prems(1) z en f Inl have "r = Inl e" "w' = w1" by simp_all
    with w1 have "?Q [] 0 None" by simp
    then show ?thesis by blast
  next
    case (Inr df1)
    from completes_as_Inr [OF c f [unfolded Inr]] obtain msg
      where msg: "w1 = logger_info msg w" "operation_of_message msg = Some name" by blast
    obtain r2 w2 where ch: "call_hook h ?p w1 = (r2, w2)"
      by (cases "call_hook h ?p w1") auto
    from call_hook_world [OF ch] msg(1)
    have w2: "events w2 = events w @ [Info msg, Progress ?p]" "files w2 = files w"
      "h ?p (ui w) = (r2, ui w2)"
      by (simp_all add: logger_info_def)
    show ?thesis
    proof (cases r2)
      case (Some x)
      from Cons.prems(1) z en f Inr ch n Some have "r = Inl (External x)" "w' = w2"
        by (simp_all add: percent_def)
      with w2 msg(2) Some have "?Q [Info msg, Progress ?p] (Suc 0) (Some x)"
        by (simp add: a)
      then show ?thesis by blast
    next
      case None
      from Cons.prems(1) z en f Inr ch n None
      have rest: "run_operations (Some h) n (zip [Suc k..<Suc k + length es] es) df1 w2 = (r, w')"
        by (simp add: percent_def)
      from Cons.prems(2) have "\<forall>(name, func, enabled) \<in> set es. enabled \<and> completes_as name func"
        by simp
      from Cons.IH [OF rest this k] obtain new m res
        where new: "events w' = events w2 @ new" "files w' = files w2" "m \<le> length es"
          "steps new = concat (map (\<lambda>(j, name). [Transformed name, Called (percent_value j n)])
                      (zip [Suc (Suc k)..<Suc (Suc k) + m] (map fst es)))"
          "hook_calls new = map (\<lambda>j. percent_value j n) [Suc (Suc k)..<Suc (Suc k) + m]"
          "call_all h (hook_calls new) (ui w2) = (res, ui w')"
          "\<forall>x. res = Some x \<longrightarrow> r = Inl (External x)"
          "\<not> isl r \<longrightarrow> m = length es \<and> res = None"
        by blast
      let ?new = "[Info msg, Progress ?p] @ new"
      have 1: "events w' = events w @ ?new" using new(1) w2(1) by simp
      have 2: "files w' = files w" using new(2) w2(2) by simp
      have 3: "Suc m \<le> length (a # es)" using new(3) by simp
      have 4: "steps ?new = concat (map (\<lambda>(j, name). [Transformed name, Called (percent_value j n)])
                      (zip [Suc k..<Suc k + Suc m] (map fst (a # es))))"
        using new(4) msg(2) upt_shift [of "Suc k" m] by (simp add: a del: upt_Suc)
      have 5: "hook_calls ?new = map (\<lambda>j. percent_value j n) [Suc k..<Suc k + Suc m]"
        using new(5) upt_shift [of "Suc k" m] by (simp del: upt_Suc)
      have 6: "call_all h (hook_calls ?new) (ui w) = (res, ui w')"
        using new(6) w2(3) None by simp
      have 7: "\<not> isl r \<longrightarrow> Suc m = length (a # es) \<and> res = None"
        using new(8) by simp
      from 1 2 3 4 5 6 7 new(7) have "?Q ?new (Suc m) res" by blast
      then show ?thesis by blast
    qed
  qed
qed

lemma enabled_operation_names:
  "map fst (filter (\<lambda>op. snd (snd op)) (operations ev config)) = enabled_names config"
  by (simp add: operations_def enabled_names_def)

lemma length_enabled_names: "length (enabled_names config) \<le> 6"
proof -
  have "length (enabled_names config) \<le> length
       [(''remove_duplicates'', opt_remove_duplicates config),
        (''remove_empty_rows'', opt_remove_empty_rows config),
        (''remove_empty_columns'', opt_remove_empty_columns config),
        (''trim_spaces'', opt_trim_spaces config),
        (''normalize_column_names'', opt_normalize_column_names config),
        (''title_case_cells'', opt_title_case_cells config)]"
    unfolding enabled_names_def length_map by (rule length_filter_le)
  then show ?thesis by simp
qed

lemma clean_excel_file_Inr:
  fixes w :: "('b, 'x, 'h) world" and ev :: "('b, 'x, 'n) env"
  assumes "clean_excel_file ev path config hook w = (Inr (bp, cp, st), w')"
  obtains w1 df df' w3 w4 where
    "create_backup ev path w = Inr (bp, w1)"
    "read_excel ev path (logger_info (Loading_file path) w1) = Inr df"
    "run_operations hook (length (enabled_names config))
       (enumerate_list (filter (\<lambda>op. snd (snd op)) (operations ev config)))
       df (logger_info (Loading_file path) w1) = (Inr df', w3)"
    "cp = get_cleaned_filename ev path"
    "to_excel ev df' cp w3 = Inr w4"
    "st = \<lparr>original = get_dataframe_stats df, final = get_dataframe_stats df',
           operations_applied = enabled_names config\<rparr>"
    "w' = logger_info (Successfully_cleaned cp) w4"
proof -
  from assms have t: "try_block ev path config hook w = (Inr (bp, cp, st), w')"
    by (auto simp: clean_excel_file_def split: prod.splits sum.splits)
  have l: "length (filter (\<lambda>op. snd (snd op))
      (operations ev config :: (string \<times> ('b, 'x, 'h, 'n) transformation \<times> bool) list))
      = length (enabled_names config)"
    using enabled_operation_names [of ev config, THEN arg_cong, of length] by simp
  from t show ?thesis
    unfolding try_block_def Let_def l enabled_operation_names
    by (auto split: sum.splits prod.splits intro: that)
qed

lemma create_backup_Inr:
  assumes "create_backup ev path w = Inr (bp, w1)"
  shows "bp = backup_filename (timestamp_backup ev) path" and "bp \<noteq> path"
    and "\<exists>b. files w path = Some b \<and> w1 = w\<lparr>files := (files w)(bp \<mapsto> b)\<rparr>"
  using assms
  by (auto simp: create_backup_def copy2_def Let_def split: sum.splits option.splits if_splits)

lemma to_excel_Inr:
  assumes "to_excel ev df path w = Inr w'"
  shows "\<exists>b. render_excel ev (columns df) = Inr b \<and> w' = w\<lparr>files := (files w)(path \<mapsto> b)\<rparr>"
  using assms by (auto simp: to_excel_def split: sum.splits option.splits)

lemma percent_floor_sorted:
  "sorted (map (\<lambda>k. int (k * 100 div n)) [a..<b])"
proof -
  have "sorted_wrt (\<lambda>x y. int (x * 100 div n) \<le> int (y * 100 div n)) [a..<b]"
    by (rule sorted_wrt_mono_rel [of _ "(<)"]) (simp_all add: div_le_mono)
  then show ?thesis by (simp add: sorted_map)
qed

lemma enabled_operations_complete:
  "\<forall>(name, func, enabled) \<in> set (filter (\<lambda>op. snd (snd op)) (operations ev config)).
     enabled \<and> completes_as name func"
  by (auto dest: operations_complete)

lemma try_block_trace:
  fixes w :: "('b, 'x, 'h) world" and ev :: "('b, 'x, 'n) env" and h :: "('x, 'h) hook"
  assumes "try_block ev path config (Some h) w = (r, w')"
  shows "\<exists>new m res. events w' = events w @ new \<and> m \<le> length (enabled_names config)
    \<and> steps new = concat (map (\<lambda>(j, name).
          [Transformed name, Called (percent_value j (length (enabled_names config)))])
        (zip [Suc 0..<Suc m] (enabled_names config)))
    \<and> hook_calls new = map (\<lambda>j. percent_value j (length (enabled_names config))) [Suc 0..<Suc m]
    \<and> call_all h (hook_calls new) (ui w) = (res, ui w')
    \<and> (\<forall>x. res = Some x \<longrightarrow> r = Inl (External x))
    \<and> (\<forall>bp cp st. r = Inr (bp, cp, st) \<longrightarrow>
          m = length (enabled_names config) \<and> res = None
          \<and> operations_applied st = enabled_names config)"
proof -
  let ?n = "length (enabled_names config)"
  let ?en = "filter (\<lambda>op. snd (snd op))
    (operations ev config :: (string \<times> ('b, 'x, 'h, 'n) transformation \<times> bool) list)"
  let ?Q = "\<lambda>new m res. events w' = events w @ new \<and> m \<le> ?n
    \<and> steps new = concat (map (\<lambda>(j, name). [Transformed name, Called (percent_value j ?n)])
        (zip [Suc 0..<Suc m] (enabled_names config)))
    \<and> hook_calls new = map (\<lambda>j. percent_value j ?n) [Suc 0..<Suc m]
    \<and> call_all h (hook_calls new) (ui w) = (res, ui w')
    \<and> (\<forall>x. res = Some x \<longrightarrow> r = Inl (External x))
    \<and> (\<forall>bp cp st. r = Inr (bp, cp, st) \<longrightarrow>
          m = ?n \<and> res = None \<and> operations_applied st = enabled_names config)"
  have len: "length ?en = ?n"
    using enabled_operation_names [of ev config, THEN arg_cong, of length] by simp
  show ?thesis
  proof (cases "create_backup ev path w")
    case (Inl e)
    with assms have "r = Inl e" "w' = w" by (simp_all add: try_block_def)
    then have "?Q [] 0 None" by simp
    then show ?thesis by blast
  next
    case (Inr a)
    obtain bp w1 where a: "a = (bp, w1)" by (cases a) auto
    from create_backup_Inr(3) [OF Inr [unfolded a]]
    have w1: "events w1 = events w" "ui w1 = ui w" by auto
    let ?w2 = "logger_info (Loading_file path) w1"
    have w2: "events ?w2 = events w @ [Info (Loading_file path)]" "ui ?w2 = ui w"
      by (simp_all add: logger_info_def w1)
    show ?thesis
    proof (cases "read_excel ev path ?w2")
      case (Inl e)
      with assms Inr a have "r = Inl e" "w' = ?w2" by (simp_all add: try_block_def)
      with w2 have "?Q [Info (Loading_file path)] 0 None"
        by (simp add: operation_of_message_def)
      then show ?thesis by blast
    next
      case df: (Inr df)
      obtain r3 w3 where run: "run_operations (Some h) ?n (enumerate_list ?en) df ?w2 = (r3, w3)"
        by (cases "run_operations (Some h) ?n (enumerate_list ?en) df ?w2") auto
      then have run0: "run_operations (Some h) ?n (zip [0..<0 + length ?en] ?en) df ?w2 = (r3, w3)"
        by (simp add: enumerate_list_def)
      have le: "0 + length ?en \<le> ?n" using len by simp
      have "\<exists>mid m res. events w3 = events ?w2 @ mid \<and> m \<le> ?n
        \<and> steps mid = concat (map (\<lambda>(j, name). [Transformed name, Called (percent_value j ?n)])
            (zip [Suc 0..<Suc m] (enabled_names config)))
        \<and> hook_calls mid = map (\<lambda>j. percent_value j ?n) [Suc 0..<Suc m]
        \<and> call_all h (hook_calls mid) (ui ?w2) = (res, ui w3)
        \<and> (\<forall>x. res = Some x \<longrightarrow> r3 = Inl (External x))
        \<and> (\<not> isl r3 \<longrightarrow> m = ?n \<and> res = None)"
        using run_operations_trace [OF run0 enabled_operations_complete le]
        unfolding len enabled_operation_names by (simp del: upt_Suc) blast
      then obtain mid m res where mid: "events w3 = events ?w2 @ mid" "m \<le> ?n"
        "steps mid = concat (map (\<lambda>(j, name). [Transformed name, Called (percent_value j ?n)])
            (zip [Suc 0..<Suc m] (enabled_names config)))"
        "hook_calls mid = map (\<lambda>j. percent_value j ?n) [Suc 0..<Suc m]"
        "call_all h (hook_calls mid) (ui ?w2) = (res, ui w3)"
        "\<forall>x. res = Some x \<longrightarrow> r3 = Inl (External x)"
        "\<not> isl r3 \<longrightarrow> m = ?n \<and> res = None"
        by blast
      let ?mid = "Info (Loading_file path) # mid"
      have st: "steps ?mid = steps mid" "hook_calls ?mid = hook_calls mid"
        by (simp_all add: operation_of_message_def)
      have ev3: "events w3 = events w @ ?mid" using mid(1) w2(1) by simp
      show ?thesis
      proof (cases r3)
        case (Inl e)
        with assms Inr a df run len have "r = Inl e" "w' = w3"
          by (simp_all add: try_block_def Let_def)
        with Inl mid ev3 w2(2) have "?Q ?mid m res"
          unfolding st by simp
        then show ?thesis by blast
      next
        case df': (Inr df')
        with mid(7) have m: "m = ?n" "res = None" by simp_all
        let ?cp = "get_cleaned_filename ev path"
        show ?thesis
        proof (cases "to_excel ev df' ?cp w3")
          case (Inl e)
          with assms Inr a df run len df' have "r = Inl e" "w' = w3"
            by (simp_all add: try_block_def Let_def)
          with mid ev3 w2(2) m have "?Q ?mid m res"
            unfolding st by simp
          then show ?thesis by blast
        next
          case w4: (Inr w4)
          from to_excel_Inr [OF w4] have e4: "events w4 = events w3" "ui w4 = ui w3" by auto
          let ?st = "\<lparr>original = get_dataframe_stats df, final = get_dataframe_stats df',
                     operations_applied = enabled_names config\<rparr>"
          from assms Inr a df run len df' w4
          have "r = Inr (bp, ?cp, ?st)" "w' = logger_info (Successfully_cleaned ?cp) w4"
            by (simp_all add: try_block_def Let_def enabled_operation_names)
          then have r: "r = Inr (bp, ?cp, ?st)"
            and e': "events w' = events w @ (?mid @ [Info (Successfully_cleaned ?cp)])"
            and u': "ui w' = ui w3"
            by (simp_all add: logger_info_def e4 ev3)
          have st': "steps (?mid @ [Info (Successfully_cleaned ?cp)]) = steps mid"
            "hook_calls (?mid @ [Info (Successfully_cleaned ?cp)]) = hook_calls mid"
            by (simp_all add: steps_append hook_calls_append operation_of_message_def)
          from r e' u' mid w2(2) m have "?Q (?mid @ [Info (Successfully_cleaned ?cp)]) m res"
            unfolding st' by simp
          then show ?thesis by blast
        qed
      qed
    qed
  qed
qed


lemma clean_excel_file_trace:
  fixes w :: "('b, 'x, 'h) world" and ev :: "('b, 'x, 'n) env" and h :: "('x, 'h) hook"
  assumes "clean_excel_file ev path config (Some h) w = (r, w')"
  shows "\<exists>new m res. events w' = events w @ new \<and> m \<le> length (enabled_names config)
    \<and> steps new = concat (map (\<lambda>(j, name).
          [Transformed name, Called (percent_value j (length (enabled_names config)))])
        (zip [Suc 0..<Suc m] (enabled_names config)))
    \<and> hook_calls new = map (\<lambda>j. percent_value j (length (enabled_names config))) [Suc 0..<Suc m]
    \<and> call_all h (hook_calls new) (ui w) = (res, ui w')
    \<and> (\<forall>x. res = Some x \<longrightarrow> r = Inl (External x))
    \<and> (\<forall>bp cp st. r = Inr (bp, cp, st) \<longrightarrow>
          m = length (enabled_names config) \<and> res = None
          \<and> operations_applied st = enabled_names config)"
proof -
  obtain r0 w0 where t: "try_block ev path config (Some h) w = (r0, w0)"
    by (cases "try_block ev path config (Some h) w") auto
  from try_block_trace [OF t] obtain new m res
    where new: "events w0 = events w @ new" "m \<le> length (enabled_names config)"
      "steps new = concat (map (\<lambda>(j, name).
          [Transformed name, Called (percent_value j (length (enabled_names config)))])
        (zip [Suc 0..<Suc m] (enabled_names config)))"
      "hook_calls new = map (\<lambda>j. percent_value j (length (enabled_names config))) [Suc 0..<Suc m]"
      "call_all h (hook_calls new) (ui w) = (res, ui w0)"
      "\<forall>x. res = Some x \<longrightarrow> r0 = Inl (External x)"
      "\<forall>bp cp st. r0 = Inr (bp, cp, st) \<longrightarrow>
          m = length (enabled_names config) \<and> res = None
          \<and> operations_applied st = enabled_names config"
    by blast
  show ?thesis
  proof (cases r0)
    case (Inl e)
    with assms t have r: "r = r0" and w': "w' = logger_error e w0"
      by (simp_all add: clean_excel_file_def)
    let ?new = "new @ [Error_cleaning_file e]"
    have "events w' = events w @ ?new" "ui w' = ui w0"
      by (simp_all add: w' logger_error_def new(1))
    moreover have "steps ?new = steps new" "hook_calls ?new = hook_calls new"
      by (simp_all add: steps_append hook_calls_append)
    ultimately show ?thesis
      using new(2-) unfolding r
      by (intro exI [of _ ?new] exI [of _ m] exI [of _ res])
        (simp del: upt_Suc steps.simps hook_calls.simps)
  next
    case (Inr a)
    with assms t have "r = r0" "w' = w0" by (simp_all add: clean_excel_file_def)
    with new show ?thesis by blast
  qed
qed

lemma percent_floor_upto:
  assumes "m \<le> n" and "n \<le> 6"
  shows "map (\<lambda>j. percent_value j n) [Suc 0..<Suc m] = map (\<lambda>k. int (k * 100 div n)) [1..<Suc m]"
    and "map (\<lambda>(j, name). [Transformed name, Called (percent_value j n)]) (zip [Suc 0..<Suc m] names)
      = map (\<lambda>(k, name). [Transformed name, Called (int (k * 100 div n))]) (zip [1..<Suc m] names)"
proof -
  have pv: "percent_value j n = int (j * 100 div n)" if "j \<in> set [Suc 0..<Suc m]" for j
    using that assms by (intro percent_value_floor) auto
  show "map (\<lambda>j. percent_value j n) [Suc 0..<Suc m] = map (\<lambda>k. int (k * 100 div n)) [1..<Suc m]"
    unfolding One_nat_def by (rule map_cong [OF refl]) (simp add: pv)
  show "map (\<lambda>(j, name). [Transformed name, Called (percent_value j n)]) (zip [Suc 0..<Suc m] names)
      = map (\<lambda>(k, name). [Transformed name, Called (int (k * 100 div n))]) (zip [1..<Suc m] names)"
    unfolding One_nat_def by (rule map_cong [OF refl]) (auto dest!: set_zip_leftD simp: pv)
qed

lemma last_percent_floor:
  assumes "0 < n"
  shows "last (map (\<lambda>k. int (k * 100 div n)) [1..<Suc n]) = 100"
proof -
  from assms have "[1..<Suc n] = [1..<n] @ [n]" by (simp add: Suc_le_eq)
  then have "last (map (\<lambda>k. int (k * 100 div n)) [1..<Suc n]) = int (n * 100 div n)"
    by (simp only: map_append last_snoc list.map)
  with assms show ?thesis by simp
qed

text \<open>
  C3, as the specification states it: for every configuration and every progress callback,
  the callback is called once after each enabled transformation, and the last call
  receives 100. It is not so in a run that a transformation ends: with the headers
  \<open>a_b\<close> and \<open>A B\<close> and the operations normalize-column-names and title-case-cells
  enabled, the first gives both columns the header \<open>A B\<close>, the second raises on that
  header, and the callback has been called once, with 50.
\<close>

theorem progress_hook_stops_early:
  "enabled_names clash_config = [''normalize_column_names'', ''title_case_cells'']
   \<and> fst (clean_excel_file demo_env ''book.xlsx'' clash_config (Some demo_hook) clash_world)
       = Inl AttributeError
   \<and> hook_calls (events (snd (clean_excel_file demo_env ''book.xlsx'' clash_config
         (Some demo_hook) clash_world))) = [50]
   \<and> ui (snd (clean_excel_file demo_env ''book.xlsx'' clash_config (Some demo_hook) clash_world))
       = [50]"
proof -
  let ?run = "clean_excel_file demo_env ''book.xlsx'' clash_config (Some demo_hook) clash_world"
  have "isl (fst ?run)" and "projl (fst ?run) = AttributeError" by code_simp+
  then have "fst ?run = Inl AttributeError" by (metis sum.collapse(1))
  moreover have "enabled_names clash_config = [''normalize_column_names'', ''title_case_cells'']"
    by code_simp
  moreover have "hook_calls (events (snd ?run)) = [50]" by code_simp
  moreover have "ui (snd ?run) = [50]" by code_simp
  ultimately show ?thesis by blast
qed

text \<open>
  C3, amended: in every run with a progress callback, whether it returns or raises, the
  callback is called exactly once after each enabled transformation that completes, in
  the fixed order, and at no other time: after the \<open>k\<close>-th of the \<open>n\<close> enabled
  operations with the percent \<open>\<lfloor>k / n * 100\<rfloor>\<close>, which is the value of the
  floating-point expression of the code. The calls are those of the first \<open>m\<close> enabled
  operations, for some \<open>m \<le> n\<close>; the state of the callback's owner after the run is the
  one these calls produce, one after the other, from the state before; a call that raises
  is the last one and its error is the error of the run. The values do not decrease, and
  there is no call when no operation is enabled. In a run that returns, \<open>m = n\<close>: every
  enabled operation is followed by its call, no call has raised, and the last call
  receives 100.
\<close>

theorem progress_hook_calls:
  fixes w :: "('b, 'x, 'h) world" and ev :: "('b, 'x, 'n) env" and h :: "('x, 'h) hook"
  assumes "clean_excel_file ev path config (Some h) w = (r, w')"
  shows "\<exists>new m res. events w' = events w @ new
    \<and> m \<le> length (enabled_names config)
    \<and> steps new = concat (map (\<lambda>(k, name).
          [Transformed name, Called (int (k * 100 div length (enabled_names config)))])
        (zip [1..<Suc m] (enabled_names config)))
    \<and> hook_calls new
        = map (\<lambda>k. int (k * 100 div length (enabled_names config))) [1..<Suc m]
    \<and> length (hook_calls new) = m
    \<and> call_all h (hook_calls new) (ui w) = (res, ui w')
    \<and> (\<forall>x. res = Some x \<longrightarrow> r = Inl (External x))
    \<and> (enabled_names config = [] \<longrightarrow> hook_calls new = [])
    \<and> sorted (hook_calls new)
    \<and> (\<forall>bp cp st. r = Inr (bp, cp, st) \<longrightarrow>
          m = length (enabled_names config) \<and> res = None
          \<and> (hook_calls new \<noteq> [] \<longrightarrow> last (hook_calls new) = 100)
          \<and> operations_applied st = enabled_names config)"
proof -
  let ?n = "length (enabled_names config)"
  from clean_excel_file_trace [OF assms] obtain new m res
    where new: "events w' = events w @ new" "m \<le> ?n"
      "steps new = concat (map (\<lambda>(j, name). [Transformed name, Called (percent_value j ?n)])
        (zip [Suc 0..<Suc m] (enabled_names config)))"
      "hook_calls new = map (\<lambda>j. percent_value j ?n) [Suc 0..<Suc m]"
      "call_all h (hook_calls new) (ui w) = (res, ui w')"
      "\<forall>x. res = Some x \<longrightarrow> r = Inl (External x)"
      "\<forall>bp cp st. r = Inr (bp, cp, st) \<longrightarrow>
          m = ?n \<and> res = None \<and> operations_applied st = enabled_names config"
    by blast
  note pf = percent_floor_upto [OF new(2) length_enabled_names]
  have s: "steps new = concat (map (\<lambda>(k, name). [Transformed name, Called (int (k * 100 div ?n))])
        (zip [1..<Suc m] (enabled_names config)))"
    unfolding new(3) pf(2) ..
  have c: "hook_calls new = map (\<lambda>k. int (k * 100 div ?n)) [1..<Suc m]"
    unfolding new(4) pf(1) ..
  have l: "length (hook_calls new) = m" unfolding c by simp
  have e: "enabled_names config = [] \<longrightarrow> hook_calls new = []"
  proof
    assume "enabled_names config = []"
    with new(2) have "m = 0" by simp
    with c show "hook_calls new = []" by simp
  qed
  have so: "sorted (hook_calls new)"
    unfolding c by (rule percent_floor_sorted)
  have la: "last (hook_calls new) = 100" if "m = ?n" "hook_calls new \<noteq> []"
  proof -
    from that l have "0 < ?n" by (cases "?n = 0") auto
    from last_percent_floor [OF this] that(1) c show ?thesis by simp
  qed
  have f: "\<forall>bp cp st. r = Inr (bp, cp, st) \<longrightarrow>
          m = ?n \<and> res = None
          \<and> (hook_calls new \<noteq> [] \<longrightarrow> last (hook_calls new) = 100)
          \<and> operations_applied st = enabled_names config"
    using new(7) la by blast
  from new(1) new(2) s c l new(5) new(6) e so f show ?thesis by blast
qed

theorem progress_hook_calls_witness:
  "\<not> isl (fst (clean_excel_file demo_env ''book.xlsx'' demo_config (Some demo_hook) demo_world))
   \<and> (\<exists>new. events (snd (clean_excel_file demo_env ''book.xlsx'' demo_config (Some demo_hook) demo_world))
          = events demo_world @ new
        \<and> steps new = [Transformed ''remove_duplicates'', Called 33,
                        Transformed ''remove_empty_rows'', Called 66,
                        Transformed ''trim_spaces'', Called 100]
        \<and> hook_calls new = [33, 66, 100]
        \<and> call_all demo_hook [33, 66, 100] (ui demo_world)
            = (None, ui (snd (clean_excel_file demo_env ''book.xlsx'' demo_config
                 (Some demo_hook) demo_world))))
   \<and> call_all demo_hook [33, 66, 100] (ui demo_world) = (None, [33, 66, 100])"
proof -
  let ?run = "clean_excel_file demo_env ''book.xlsx'' demo_config (Some demo_hook) demo_world"
  have h: "\<not> isl (fst ?run)" by code_simp
  then obtain bp cp st where r: "fst ?run = Inr (bp, cp, st)"
    by (cases "fst ?run") auto
  have eq: "?run = (fst ?run, snd ?run)" by simp
  have n: "length (enabled_names demo_config) = 3" by code_simp
  from progress_hook_calls [OF eq] obtain new m res
    where new: "events (snd ?run) = events demo_world @ new"
      "steps new = concat (map (\<lambda>(k, name).
          [Transformed name, Called (int (k * 100 div length (enabled_names demo_config)))])
        (zip [1..<Suc m] (enabled_names demo_config)))"
      "hook_calls new
        = map (\<lambda>k. int (k * 100 div length (enabled_names demo_config))) [1..<Suc m]"
      "call_all demo_hook (hook_calls new) (ui demo_world) = (res, ui (snd ?run))"
      "\<forall>bp cp st. fst ?run = Inr (bp, cp, st) \<longrightarrow>
          m = length (enabled_names demo_config) \<and> res = None
          \<and> (hook_calls new \<noteq> [] \<longrightarrow> last (hook_calls new) = 100)
          \<and> operations_applied st = enabled_names demo_config"
    by blast
  from new(5) r n have m: "m = 3" "res = None" by auto
  have 1: "concat (map (\<lambda>(k, name).
          [Transformed name, Called (int (k * 100 div length (enabled_names demo_config)))])
        (zip [1..<Suc 3] (enabled_names demo_config)))
      = [Transformed ''remove_duplicates'', Called 33,
                        Transformed ''remove_empty_rows'', Called 66,
                        Transformed ''trim_spaces'', Called 100]"
    by code_simp
  have 2: "map (\<lambda>k. int (k * 100 div length (enabled_names demo_config))) [1..<Suc 3]
      = [33, 66, 100]"
    by code_simp
  have 3: "call_all demo_hook [33, 66, 100] (ui demo_world) = (None, [33, 66, 100])"
    by code_simp
  note a = new(1) and b = new(2) [unfolded m 1] and c = new(3) [unfolded m 2]
  from new(4) have d: "call_all demo_hook [33, 66, 100] (ui demo_world) = (None, ui (snd ?run))"
    unfolding c m .
  from a b c d have "\<exists>new. events (snd ?run) = events demo_world @ new
        \<and> steps new = [Transformed ''remove_duplicates'', Called 33,
                        Transformed ''remove_empty_rows'', Called 66,
                        Transformed ''trim_spaces'', Called 100]
        \<and> hook_calls new = [33, 66, 100]
        \<and> call_all demo_hook [33, 66, 100] (ui demo_world) = (None, ui (snd ?run))"
    by (intro exI [of _ new] conjI)
  with h 3 show ?thesis by (intro conjI)
qed

section \<open>A run with no operation enabled\<close>

lemma read_excel_Inr:
  assumes "read_excel ev path w = Inr df"
  shows "\<exists>b. files w path = Some b \<and> parse_excel ev b = Inr df"
  using assms by (auto simp: read_excel_def split: option.splits sum.splits)


text \<open>
  C4: when every flag of the configuration is false, a run that returns has applied no
  transformation: the list of applied operations is empty, the statistics after are the
  statistics before, so the row and column counts are those of the input, the output
  file holds the data set as it was loaded, and the backup holds the bytes of the input,
  which is itself untouched.
\<close>

theorem no_flags_no_change:
  fixes w :: "('b, 'x, 'h) world" and ev :: "('b, 'x, 'n) env"
  assumes "clean_excel_file ev path config hook w = (Inr (bp, cp, st), w')"
    and "\<not> opt_remove_duplicates config" and "\<not> opt_remove_empty_rows config"
    and "\<not> opt_remove_empty_columns config" and "\<not> opt_trim_spaces config"
    and "\<not> opt_normalize_column_names config" and "\<not> opt_title_case_cells config"
  shows "operations_applied st = []
    \<and> final st = original st
    \<and> stat_rows (final st) = stat_rows (original st)
    \<and> stat_columns (final st) = stat_columns (original st)
    \<and> (\<exists>b df b'. files w path = Some b \<and> files w' bp = Some b \<and> files w' path = Some b
          \<and> parse_excel ev b = Inr df
          \<and> stat_rows (original st) = length (index df)
          \<and> stat_columns (original st) = length (columns df)
          \<and> render_excel ev (columns df) = Inr b' \<and> files w' cp = Some b')
    \<and> events w' = events w @ [Info (Loading_file path), Info (Successfully_cleaned cp)]
    \<and> ui w' = ui w"
proof -
  let ?en = "filter (\<lambda>op. snd (snd op))
    (operations ev config :: (string \<times> ('b, 'x, 'h, 'n) transformation \<times> bool) list)"
  from assms(2-7) have names: "enabled_names config = []"
    by (simp add: enabled_names_def)
  then have "map fst ?en = []" by (simp only: enabled_operation_names)
  then have en: "?en = []" by simp
  from assms(1) obtain w1 df df' w3 w4 where
    b: "create_backup ev path w = Inr (bp, w1)"
    and rd: "read_excel ev path (logger_info (Loading_file path) w1) = Inr df"
    and r: "run_operations hook (length (enabled_names config)) (enumerate_list ?en) df
        (logger_info (Loading_file path) w1) = (Inr df', w3)"
    and cp: "cp = get_cleaned_filename ev path"
    and t: "to_excel ev df' cp w3 = Inr w4"
    and st: "st = \<lparr>original = get_dataframe_stats df, final = get_dataframe_stats df',
           operations_applied = enabled_names config\<rparr>"
    and w': "w' = logger_info (Successfully_cleaned cp) w4"
    by (rule clean_excel_file_Inr)
  from r have same: "df' = df" "w3 = logger_info (Loading_file path) w1"
    by (simp_all add: en enumerate_list_def)
  from create_backup_Inr [OF b] obtain c where
    bp: "bp = backup_filename (timestamp_backup ev) path" "bp \<noteq> path"
    and c: "files w path = Some c" "w1 = w\<lparr>files := (files w)(bp \<mapsto> c)\<rparr>"
    by blast
  from bp have d: "cp \<noteq> path" "bp \<noteq> cp"
    using paths_distinct [of "timestamp_backup ev" path ev] by (simp_all add: cp)
  from to_excel_Inr [OF t] obtain b' where
    b': "render_excel ev (columns df') = Inr b'" "w4 = w3\<lparr>files := (files w3)(cp \<mapsto> b')\<rparr>"
    by blast
  from read_excel_Inr [OF rd] bp(2) c have p: "parse_excel ev c = Inr df"
    by (simp add: logger_info_def)
  have f: "files w' = (files w)(bp \<mapsto> c, cp \<mapsto> b')"
    by (simp add: w' b'(2) same(2) c(2) logger_info_def)
  have "files w' bp = Some c" "files w' path = Some c" "files w' cp = Some b'"
    using d bp(2) c(1) by (simp_all add: f)
  moreover have "events w' = events w @ [Info (Loading_file path), Info (Successfully_cleaned cp)]"
    by (simp add: w' b'(2) same(2) c(2) logger_info_def)
  moreover have "ui w' = ui w"
    by (simp add: w' b'(2) same(2) c(2) logger_info_def)
  ultimately show ?thesis
    using names c(1) p b'(1) by (simp add: st same(1) get_dataframe_stats_def)
qed

theorem no_flags_no_change_witness:
  "\<not> isl (fst (clean_excel_file demo_env ''book.xlsx'' no_flags (Some demo_hook) demo_world))
   \<and> \<not> opt_remove_duplicates no_flags \<and> \<not> opt_remove_empty_rows no_flags
   \<and> \<not> opt_remove_empty_columns no_flags \<and> \<not> opt_trim_spaces no_flags
   \<and> \<not> opt_normalize_column_names no_flags \<and> \<not> opt_title_case_cells no_flags
   \<and> (case fst (clean_excel_file demo_env ''book.xlsx'' no_flags (Some demo_hook) demo_world) of
         Inr (bp, cp, st) \<Rightarrow> operations_applied st = [] \<and> final st = original st
       | Inl e \<Rightarrow> False)
   \<and> ui (snd (clean_excel_file demo_env ''book.xlsx'' no_flags (Some demo_hook) demo_world)) = []"
proof -
  let ?run = "clean_excel_file demo_env ''book.xlsx'' no_flags (Some demo_hook) demo_world"
  have h: "\<not> isl (fst ?run)" by code_simp
  then obtain bp cp st w' where eq: "?run = (Inr (bp, cp, st), w')"
    by (cases ?run; cases "fst ?run") auto
  have f: "\<not> opt_remove_duplicates no_flags" "\<not> opt_remove_empty_rows no_flags"
    "\<not> opt_remove_empty_columns no_flags" "\<not> opt_trim_spaces no_flags"
    "\<not> opt_normalize_column_names no_flags" "\<not> opt_title_case_cells no_flags"
    by (simp_all add: no_flags_def)
  have "ui demo_world = []" by (simp add: demo_world_def)
  with no_flags_no_change [OF eq f] h f eq show ?thesis by simp
qed

section \<open>Failures\<close>

lemma run_operations_error:
  assumes "run_operations hook n l df w = (Inl e, w')"
  shows "(n = 0 \<and> e = ZeroDivisionError)
    \<or> (\<exists>(i, name, func, enabled) \<in> set l. enabled \<and> (\<exists>df0 w0. func df0 w0 = (Inl e, w')))
    \<or> (\<exists>h p w0 x. hook = Some h \<and> call_hook h p w0 = (Some x, w') \<and> e = External x)"
  using assms
proof (induction l arbitrary: df w)
  case Nil
  then show ?case by simp
next
  case (Cons a l)
  obtain i name func enabled where a: "a = (i, name, func, enabled)" by (cases a) auto
  show ?case
  proof (cases enabled)
    case False
    with Cons.prems a have "run_operations hook n l df w = (Inl e, w')" by simp
    from Cons.IH [OF this] show ?thesis by auto
  next
    case True
    obtain r w1 where f: "func df w = (r, w1)" by (cases "func df w") auto
    show ?thesis
    proof (cases r)
      case (Inl e1)
      with Cons.prems a True f have "e1 = e" "w1 = w'" by simp_all
      with f Inl a True show ?thesis by auto
    next
      case (Inr df1)
      show ?thesis
      proof (cases hook)
        case None
        with Cons.prems a True f Inr have "run_operations hook n l df1 w1 = (Inl e, w')" by simp
        from Cons.IH [OF this] show ?thesis by auto
      next
        case (Some h)
        show ?thesis
        proof (cases "n = 0")
          case True
          with Cons.prems a \<open>enabled\<close> f Inr Some show ?thesis by (simp add: percent_def)
        next
          case False
          obtain r2 w2 where ch: "call_hook h (percent_value (i + 1) n) w1 = (r2, w2)"
            by (cases "call_hook h (percent_value (i + 1) n) w1") auto
          show ?thesis
          proof (cases r2)
            case None
            with Cons.prems a True f Inr Some False ch
            have "run_operations hook n l df1 w2 = (Inl e, w')" by (simp add: percent_def)
            from Cons.IH [OF this] show ?thesis by auto
          next
            case (Some x)
            with Cons.prems a True f Inr \<open>hook = Some h\<close> False ch
            have "e = External x" "w2 = w'" by (simp_all add: percent_def)
            with ch Some \<open>hook = Some h\<close> show ?thesis by blast
          qed
        qed
      qed
    qed
  qed
qed

lemma run_without_xlsx:
  assumes "files w path = Some b" and "\<not> occurs_in ''.xlsx'' path"
  shows "clean_excel_file ev path config hook w = (Inl SameFileError, logger_error SameFileError w)"
proof -
  from assms(2) have "backup_filename (timestamp_backup ev) path = path"
    by (simp add: backup_filename_iff)
  with assms(1) have "create_backup ev path w = Inl SameFileError"
    by (simp add: create_backup_def copy2_def)
  then show ?thesis by (simp add: clean_excel_file_def try_block_def)
qed


text \<open>
  C8: a failure at any step ends the run and reaches the caller as it was raised: the
  backup, the loading, a transformation, a call of the progress callback, the writing of
  the output. The handler only adds a log record. When the backup fails the world is left
  as it was but for that record, so no transformation was attempted. Conversely an error
  that a run ends in is the error its \<open>try\<close> block ended in, and inside the loop it is the
  error of a transformation or of the callback.
\<close>

theorem errors_surface_unchanged:
  fixes w :: "('b, 'x, 'h) world" and ev :: "('b, 'x, 'n) env"
  shows
    "(create_backup ev path w = Inl e \<longrightarrow>
        clean_excel_file ev path config hook w = (Inl e, logger_error e w)
        \<and> logger_error e w = w\<lparr>events := events w @ [Error_cleaning_file e]\<rparr>)
     \<and> (\<forall>bp w1. create_backup ev path w = Inr (bp, w1)
          \<and> read_excel ev path (logger_info (Loading_file path) w1) = Inl e \<longrightarrow>
        clean_excel_file ev path config hook w
          = (Inl e, logger_error e (logger_info (Loading_file path) w1)))
     \<and> (\<forall>bp w1 df w3. create_backup ev path w = Inr (bp, w1)
          \<and> read_excel ev path (logger_info (Loading_file path) w1) = Inr df
          \<and> run_operations hook (length (enabled_names config))
               (enumerate_list (filter (\<lambda>op. snd (snd op)) (operations ev config)))
               df (logger_info (Loading_file path) w1) = (Inl e, w3) \<longrightarrow>
        clean_excel_file ev path config hook w = (Inl e, logger_error e w3))
     \<and> (\<forall>bp w1 df df' w3. create_backup ev path w = Inr (bp, w1)
          \<and> read_excel ev path (logger_info (Loading_file path) w1) = Inr df
          \<and> run_operations hook (length (enabled_names config))
               (enumerate_list (filter (\<lambda>op. snd (snd op)) (operations ev config)))
               df (logger_info (Loading_file path) w1) = (Inr df', w3)
          \<and> to_excel ev df' (get_cleaned_filename ev path) w3 = Inl e \<longrightarrow>
        clean_excel_file ev path config hook w = (Inl e, logger_error e w3))
     \<and> (\<forall>i name func rest df0 w0 w1. func df0 w0 = (Inl e, w1) \<longrightarrow>
          run_operations hook n ((i, name, func, True) # rest) df0 w0 = (Inl e, w1))
     \<and> (\<forall>df0 w0 w'. run_operations hook n l df0 w0 = (Inl e, w') \<and> 0 < n \<longrightarrow>
          (\<exists>(i, name, func, enabled) \<in> set l. enabled \<and> (\<exists>df1 w1. func df1 w1 = (Inl e, w')))
          \<or> (\<exists>h p w1 x. hook = Some h \<and> call_hook h p w1 = (Some x, w') \<and> e = External x))
     \<and> (\<forall>w'. clean_excel_file ev path config hook w = (Inl e, w') \<longrightarrow>
          (\<exists>w0. w' = logger_error e w0 \<and> try_block ev path config hook w = (Inl e, w0)))"
proof -
  let ?en = "filter (\<lambda>op. snd (snd op))
    (operations ev config :: (string \<times> ('b, 'x, 'h, 'n) transformation \<times> bool) list)"
  have len: "length ?en = length (enabled_names config)"
    using enabled_operation_names [of ev config, THEN arg_cong, of length] by simp
  have 1: "create_backup ev path w = Inl e \<longrightarrow>
        clean_excel_file ev path config hook w = (Inl e, logger_error e w)
        \<and> logger_error e w = w\<lparr>events := events w @ [Error_cleaning_file e]\<rparr>"
    by (simp add: clean_excel_file_def try_block_def logger_error_def)
  have 2: "\<forall>bp w1. create_backup ev path w = Inr (bp, w1)
          \<and> read_excel ev path (logger_info (Loading_file path) w1) = Inl e \<longrightarrow>
        clean_excel_file ev path config hook w
          = (Inl e, logger_error e (logger_info (Loading_file path) w1))"
    by (simp add: clean_excel_file_def try_block_def Let_def)
  have 3: "\<forall>bp w1 df w3. create_backup ev path w = Inr (bp, w1)
          \<and> read_excel ev path (logger_info (Loading_file path) w1) = Inr df
          \<and> run_operations hook (length (enabled_names config)) (enumerate_list ?en)
               df (logger_info (Loading_file path) w1) = (Inl e, w3) \<longrightarrow>
        clean_excel_file ev path config hook w = (Inl e, logger_error e w3)"
    by (simp add: clean_excel_file_def try_block_def Let_def len)
  have 4: "\<forall>bp w1 df df' w3. create_backup ev path w = Inr (bp, w1)
          \<and> read_excel ev path (logger_info (Loading_file path) w1) = Inr df
          \<and> run_operations hook (length (enabled_names config)) (enumerate_list ?en)
               df (logger_info (Loading_file path) w1) = (Inr df', w3)
          \<and> to_excel ev df' (get_cleaned_filename ev path) w3 = Inl e \<longrightarrow>
        clean_excel_file ev path config hook w = (Inl e, logger_error e w3)"
    by (simp add: clean_excel_file_def try_block_def Let_def len)
  have 5: "\<forall>i name func rest df0 w0 w1. func df0 w0 = (Inl e, w1) \<longrightarrow>
          run_operations hook n ((i, name, func, True) # rest) df0 w0 = (Inl e, w1)"
    by simp
  have 6: "\<forall>df0 w0 w'. run_operations hook n l df0 w0 = (Inl e, w') \<and> 0 < n \<longrightarrow>
          (\<exists>(i, name, func, enabled) \<in> set l. enabled \<and> (\<exists>df1 w1. func df1 w1 = (Inl e, w')))
          \<or> (\<exists>h p w1 x. hook = Some h \<and> call_hook h p w1 = (Some x, w') \<and> e = External x)"
    using run_operations_error [of hook n l _ _ e] by blast
  have 7: "\<forall>w'. clean_excel_file ev path config hook w = (Inl e, w') \<longrightarrow>
          (\<exists>w0. w' = logger_error e w0 \<and> try_block ev path config hook w = (Inl e, w0))"
    by (auto simp: clean_excel_file_def split: prod.splits sum.splits)
  from 1 2 3 4 5 6 7 show ?thesis by (intro conjI)
qed


theorem errors_surface_unchanged_witness:
  "create_backup demo_env ''book.xls'' xls_world = Inl SameFileError
   \<and> clean_excel_file demo_env ''book.xls'' demo_config (Some demo_hook) xls_world
       = (Inl SameFileError, logger_error SameFileError xls_world)
   \<and> events (logger_error SameFileError xls_world) = [Error_cleaning_file SameFileError]"
proof -
  have "backup_filename (timestamp_backup demo_env) ''book.xls'' = ''book.xls''"
    by code_simp
  then have h: "create_backup demo_env ''book.xls'' xls_world = Inl SameFileError"
    by (simp add: create_backup_def copy2_def xls_world_def)
  have "events (logger_error SameFileError xls_world) = [Error_cleaning_file SameFileError]"
    by (simp add: logger_error_def xls_world_def)
  moreover from errors_surface_unchanged
    [of demo_env "''book.xls''" xls_world SameFileError demo_config "Some demo_hook",
      THEN conjunct1, rule_format, OF h]
  have "clean_excel_file demo_env ''book.xls'' demo_config (Some demo_hook) xls_world
       = (Inl SameFileError, logger_error SameFileError xls_world)"
    by (rule conjunct1)
  ultimately show ?thesis using h by (intro conjI)
qed

end
